theory Spec2Isabelle
  imports Complex_Main "HOL-Library.Char_ord" "HOL-Library.List_Lexorder"
begin

section \<open>JavaScript values used by the code\<close>

text \<open>
  Strings are \<^typ>\<open>string\<close>; the identifiers the code handles (unique ids, set names,
  addresses) are ASCII. A value that may be \<open>undefined\<close> is an \<open>option\<close>.
  \<open>truthy\<close> is the test JavaScript applies to a string-or-undefined value in an
  \<open>if\<close>: \<open>undefined\<close> and the empty string are falsy.
\<close>

definition truthy :: "string option \<Rightarrow> bool" where
  "truthy v = (case v of None \<Rightarrow> False | Some s \<Rightarrow> s \<noteq> [])"

text \<open>\<open>String.prototype.substring(a, b)\<close>: the arguments are swapped when \<open>a > b\<close>
  and clamped to the length.\<close>

definition substring :: "nat \<Rightarrow> nat \<Rightarrow> string \<Rightarrow> string" where
  "substring a b s = take (max a b - min a b) (drop (min a b) s)"

text \<open>\<open>String.prototype.endsWith\<close>.\<close>

definition endsWith :: "string \<Rightarrow> string \<Rightarrow> bool" where
  "endsWith s suf = (length suf \<le> length s \<and> drop (length s - length suf) s = suf)"

text \<open>\<open>ip.split('/')[0]\<close>: the part of the string before its first slash.\<close>

definition split_slash_0 :: "string \<Rightarrow> string" where
  "split_slash_0 s = takeWhile (\<lambda>c. c \<noteq> CHR ''/'') s"

text \<open>\<open>String.prototype.trim\<close> on ASCII text: white space is removed at both ends.\<close>

definition is_space :: "char \<Rightarrow> bool" where
  "is_space c = (c \<in> {CHR '' '', CHR 0x09, CHR 0x0A, CHR 0x0B, CHR 0x0C, CHR 0x0D})"

definition trim :: "string \<Rightarrow> string" where
  "trim s = rev (dropWhile is_space (rev (dropWhile is_space s)))"

section \<open>Identity: names derived from the namespace and the unique id\<close>

text \<open>
  \<open>getNamespace\<close> and \<open>getUniqueId\<close> are abstract in \<open>Identity\<close> (subclasses
  override them), so the namespace \<open>ns\<close> and the unique id \<open>uid\<close> are parameters.
  The address family is the number the code passes: 4 (the default) or 6.
\<close>

definition getEnforcementIPsetName :: "string \<Rightarrow> string \<Rightarrow> nat \<Rightarrow> string" where
  "getEnforcementIPsetName ns uid af =
     ''c_'' @ ns @ ''_'' @ substring 0 12 uid @ ''_set'' @ (if af = 4 then '''' else ''6'')"

definition getEnforcementDnsmasqGroupId :: "string \<Rightarrow> string \<Rightarrow> string" where
  "getEnforcementDnsmasqGroupId ns uid = ns @ ''_'' @ uid"

definition getRedisSetName :: "string \<Rightarrow> string \<Rightarrow> string" where
  "getRedisSetName ns uid = ns @ '':addresses:'' @ uid"

definition getDnsmasqConfigDirectory :: "string \<Rightarrow> string" where
  "getDnsmasqConfigDirectory userConfigFolder = userConfigFolder @ ''/dnsmasq''"

definition getDnsmasqConfigFilenamePrefix :: "string \<Rightarrow> string \<Rightarrow> string" where
  "getDnsmasqConfigFilenamePrefix ns uid = ns @ ''_'' @ uid"

definition getPolicyKey :: "string \<Rightarrow> string \<Rightarrow> string" where
  "getPolicyKey ns uid = ''policy:'' @ ns @ '':'' @ uid"

definition instanceKey :: "string \<Rightarrow> string \<Rightarrow> string" where
  "instanceKey ns uid = ns @ '':'' @ uid"

section \<open>The external resources\<close>

text \<open>
  A routing rule as the code builds it with the fluent \<open>Rule\<close> interface.

  Modelled from the spec: the \<open>Rule\<close> class (\<open>net2/Iptables.js\<close>) is not among the
  sources. The spec describes a rule as table, chain, family-qualified match set, jump
  target and comment; each builder call sets one of them, \<open>clone\<close> copies the rule (a
  value here, so the copy is the rule itself), and \<open>toCmd\<close> turns a rule and an
  operation into the command that is run.
\<close>

record rule =
  r_family :: nat
  r_table :: string
  r_chain :: string
  r_modules :: "(string \<times> string) list"
  r_jump :: string
  r_comment :: string

definition new_Rule :: "string \<Rightarrow> rule" where
  "new_Rule t = \<lparr>r_family = 4, r_table = t, r_chain = [], r_modules = [], r_jump = [],
     r_comment = []\<rparr>"

definition chn :: "string \<Rightarrow> rule \<Rightarrow> rule" where
  "chn c r = r\<lparr>r_chain := c\<rparr>"

definition jmp :: "string \<Rightarrow> rule \<Rightarrow> rule" where
  "jmp j r = r\<lparr>r_jump := j\<rparr>"

definition comment :: "string \<Rightarrow> rule \<Rightarrow> rule" where
  "comment c r = r\<lparr>r_comment := c\<rparr>"

definition mdl :: "string \<Rightarrow> string \<Rightarrow> rule \<Rightarrow> rule" where
  "mdl m e r = r\<lparr>r_modules := r_modules r @ [(m, e)]\<rparr>"

definition fam :: "nat \<Rightarrow> rule \<Rightarrow> rule" where
  "fam v r = r\<lparr>r_family := v\<rparr>"

datatype ipt_op = Append | Delete

text \<open>
  Every operation the code hands to a collaborator: the shell commands given to
  \<open>exec\<close>, the file write, the batched set operation and the calls of the key/value
  store. \<open>VpnProfileEnv p\<close> is \<open>VPNClient.ensureCreateEnforcementEnv(p)\<close>.
\<close>

datatype cmd =
    WriteFile string string
  | IpsetCreate string string
  | IpsetFlush string
  | IpsetBatchAdd "(string \<times> string) list"
  | Iptables ipt_op rule
  | VpnProfileEnv string
  | RedisSmembers string
  | RedisSrem string "string list"
  | RedisSadd string "string list"

text \<open>
  The state outside the identity object: the kernel's address sets and rules, the
  files, the persisted address registry, the arrays on the JavaScript heap (by
  address, since the code keeps references to them), the module-level
  \<open>envCreatedMap\<close>, the number of DNS-service restarts requested, and the trace of
  every operation issued so far.
\<close>

record world =
  ipsets :: "string \<rightharpoonup> string list"
  rules :: "rule list"
  files :: "string \<rightharpoonup> string"
  redis :: "string \<Rightarrow> string list"
  heap :: "nat \<Rightarrow> string list"
  envCreatedMap :: "string \<Rightarrow> bool"
  restarts :: nat
  trace :: "cmd list"

text \<open>
  What an operation does when it succeeds.

  Modelled from the spec: the tools themselves (\<open>ipset\<close>, \<open>iptables\<close> behind
  \<open>Rule.toCmd\<close>, the key/value store, \<open>Ipset.batchOp\<close>,
  \<open>VPNClient.ensureCreateEnforcementEnv\<close>) are not among the sources. Set creation is
  create-if-not-exists; flush and add act on an existing set; appending and deleting a
  rule are idempotent (append puts the rule in the chain unless it is there, delete
  leaves the chain without it); the registry is a set of strings per key. The VPN
  profile's own environment consists of resources this model does not track.
\<close>

definition add_member :: "string \<times> string \<Rightarrow> (string \<rightharpoonup> string list) \<Rightarrow> (string \<rightharpoonup> string list)" where
  "add_member e m = (case m (fst e) of None \<Rightarrow> m | Some ys \<Rightarrow> m(fst e \<mapsto> List.insert (snd e) ys))"

fun effect :: "cmd \<Rightarrow> world \<Rightarrow> world" where
  "effect (WriteFile p c) w = w\<lparr>files := (files w)(p \<mapsto> c)\<rparr>"
| "effect (IpsetCreate n t) w =
     (case ipsets w n of None \<Rightarrow> w\<lparr>ipsets := (ipsets w)(n \<mapsto> [])\<rparr> | Some ys \<Rightarrow> w)"
| "effect (IpsetFlush n) w =
     (case ipsets w n of None \<Rightarrow> w | Some ys \<Rightarrow> w\<lparr>ipsets := (ipsets w)(n \<mapsto> [])\<rparr>)"
| "effect (IpsetBatchAdd es) w = w\<lparr>ipsets := fold add_member es (ipsets w)\<rparr>"
| "effect (Iptables Append r) w =
     w\<lparr>rules := (if r \<in> set (rules w) then rules w else rules w @ [r])\<rparr>"
| "effect (Iptables Delete r) w = w\<lparr>rules := removeAll r (rules w)\<rparr>"
| "effect (VpnProfileEnv p) w = w"
| "effect (RedisSmembers k) w = w"
| "effect (RedisSrem k xs) w = w\<lparr>redis := (redis w)(k := filter (\<lambda>x. x \<notin> set xs) (redis w k))\<rparr>"
| "effect (RedisSadd k xs) w = w\<lparr>redis := (redis w)(k := List.union (redis w k) xs)\<rparr>"

text \<open>
  Whether an operation succeeds is decided by the environment: \<open>ok c\<close> says that
  operation \<open>c\<close> succeeds. \<open>exec\<close> records the operation and applies its effect when
  it succeeds. \<open>exec_catch\<close> is a call followed by \<open>.catch\<close> with a handler that only
  logs: the failure is dropped and the caller goes on (log output is not part of
  the state).
\<close>

definition exec :: "(cmd \<Rightarrow> bool) \<Rightarrow> cmd \<Rightarrow> world \<Rightarrow> bool \<times> world" where
  "exec ok c w =
     (if ok c then (True, effect c (w\<lparr>trace := trace w @ [c]\<rparr>))
      else (False, w\<lparr>trace := trace w @ [c]\<rparr>))"

definition exec_catch :: "(cmd \<Rightarrow> bool) \<Rightarrow> cmd \<Rightarrow> world \<Rightarrow> world" where
  "exec_catch ok c w = snd (exec ok c w)"

definition scheduleRestartDNSService :: "world \<Rightarrow> world" where
  "scheduleRestartDNSService w = w\<lparr>restarts := Suc (restarts w)\<rparr>"

text \<open>
  What the code takes from modules that are not among the sources: the namespace of
  the identity's class, the user configuration folder (\<open>Firewalla.js\<close>), the address
  validity tests of the \<open>ip-address\<close> library, the route set name of a VPN profile
  (\<open>VPNClient.getRouteIpsetName\<close>) and the mark mask \<open>routing.MASK_VC\<close>.
\<close>

record deps =
  namespace :: string
  userConfigFolder :: string
  valid4 :: "string \<Rightarrow> bool"
  valid6 :: "string \<Rightarrow> bool"
  getRouteIpsetName :: "string \<Rightarrow> string"
  MASK_VC :: string

section \<open>Identity.ensureCreateEnforcementEnv\<close>

definition dnsmasq_conf_path :: "deps \<Rightarrow> string \<Rightarrow> string" where
  "dnsmasq_conf_path d uid =
     getDnsmasqConfigDirectory (userConfigFolder d) @ ''/''
       @ getDnsmasqConfigFilenamePrefix (namespace d) uid @ ''.conf''"

definition dnsmasq_conf_content :: "deps \<Rightarrow> string \<Rightarrow> string" where
  "dnsmasq_conf_content d uid =
     ''redis-src-address-group=%'' @ getRedisSetName (namespace d) uid @ ''@''
       @ getEnforcementDnsmasqGroupId (namespace d) uid"

definition ensureCreateEnforcementEnv :: "deps \<Rightarrow> (cmd \<Rightarrow> bool) \<Rightarrow> string \<Rightarrow> world \<Rightarrow> world" where
  "ensureCreateEnforcementEnv d ok uid w =
     (let w1 = exec_catch ok (WriteFile (dnsmasq_conf_path d uid) (dnsmasq_conf_content d uid)) w;
          w2 = scheduleRestartDNSService w1
      in if envCreatedMap w2 (instanceKey (namespace d) uid) then w2
         else
           (let w3 = exec_catch ok
                  (IpsetCreate (getEnforcementIPsetName (namespace d) uid 4) ''hash:net'') w2;
                w4 = exec_catch ok
                  (IpsetCreate (getEnforcementIPsetName (namespace d) uid 6)
                     ''hash:net family inet6'') w3
            in w4\<lparr>envCreatedMap := (envCreatedMap w4)(instanceKey (namespace d) uid := True)\<rparr>))"

text \<open>The operations a call issues: what it appends to the trace.\<close>

definition issued :: "world \<Rightarrow> world \<Rightarrow> cmd list" where
  "issued w w' = drop (length (trace w)) (trace w')"

fun is_create :: "cmd \<Rightarrow> bool" where
  "is_create (IpsetCreate n t) = True"
| "is_create c = False"

section \<open>The identity object and updateIPs\<close>

text \<open>
  The fields of an \<open>Identity\<close> instance that the code below reads or writes:
  \<open>_ips\<close> (a reference to an array on the heap, or \<open>undefined\<close>), \<open>_profileId\<close>,
  \<open>_aclTimer\<close> (a timer handle) and the policy object.
\<close>

record identity =
  uniqueId :: string
  priv_ips :: "nat option"
  priv_profileId :: "string option"
  priv_aclTimer :: "nat option"
  policy :: "string \<rightharpoonup> string"

text \<open>How an asynchronous call ends: it returns, or its promise is rejected because an
  awaited operation without a \<open>catch\<close> failed.\<close>

datatype outcome = Returned | Threw

text \<open>
  \<open>Array.prototype.sort()\<close> without a comparator orders strings by their code units
  and sorts the array object itself, so every holder of a reference sees the new order.
\<close>

definition sort_in_place :: "nat \<Rightarrow> world \<Rightarrow> world" where
  "sort_in_place a w = w\<lparr>heap := (heap w)(a := sort (heap w a))\<rparr>"

text \<open>
  The test \<open>this._ips && _.isEqual(ips.sort(), this._ips.sort())\<close>: when \<open>_ips\<close> is
  undefined nothing is sorted; otherwise the argument array is sorted, then the stored
  one, and the two arrays are compared element by element.
\<close>

definition ips_not_changed :: "nat \<Rightarrow> identity \<Rightarrow> world \<Rightarrow> bool \<times> world" where
  "ips_not_changed ips idn w =
     (case priv_ips idn of
        None \<Rightarrow> (False, w)
      | Some prev \<Rightarrow>
          (let w1 = sort_in_place ips w;
               w2 = sort_in_place prev w1
           in (heap w2 ips = heap w2 prev, w2)))"

text \<open>The loop over \<open>ips\<close> that collects the \<open>add\<close> lines of the batch.\<close>

definition populate_cmds :: "deps \<Rightarrow> string \<Rightarrow> string list \<Rightarrow> (string \<times> string) list" where
  "populate_cmds d u ips =
     concat (map (\<lambda>ip.
        if valid4 d ip then [(getEnforcementIPsetName (namespace d) u 4, ip)]
        else if valid6 d ip then [(getEnforcementIPsetName (namespace d) u 6, ip)]
        else []) ips)"

definition flush_and_populate :: "deps \<Rightarrow> (cmd \<Rightarrow> bool) \<Rightarrow> string \<Rightarrow> string list \<Rightarrow> world \<Rightarrow> world" where
  "flush_and_populate d ok u ips w =
     (let w1 = exec_catch ok (IpsetFlush (getEnforcementIPsetName (namespace d) u 4)) w;
          w2 = exec_catch ok (IpsetFlush (getEnforcementIPsetName (namespace d) u 6)) w1
      in exec_catch ok (IpsetBatchAdd (populate_cmds d u ips)) w2)"

definition strip_host_suffix :: "string \<Rightarrow> string" where
  "strip_host_suffix ip =
     (if endsWith ip ''/32'' \<or> endsWith ip ''/128'' then split_slash_0 ip else ip)"

text \<open>The reconciliation of the persisted registry. None of its three calls has a
  \<open>catch\<close>: a failure rejects the promise of \<open>updateIPs\<close> at that point.\<close>

definition reconcile_registry :: "(cmd \<Rightarrow> bool) \<Rightarrow> string \<Rightarrow> string list \<Rightarrow> world \<Rightarrow> outcome \<times> world" where
  "reconcile_registry ok key ips w =
     (let (r1, w1) = exec ok (RedisSmembers key) w
      in if \<not> r1 then (Threw, w1)
         else
           (let currentIPs = redis w1 key;
                removedIPs = filter (\<lambda>ip. ip \<notin> set ips) currentIPs;
                newIPs = map strip_host_suffix (filter (\<lambda>ip. ip \<notin> set currentIPs) ips);
                (r2, w2) = (if removedIPs \<noteq> [] then exec ok (RedisSrem key removedIPs) w1
                            else (True, w1))
            in if \<not> r2 then (Threw, w2)
               else
                 (let (r3, w3) = (if newIPs \<noteq> [] then exec ok (RedisSadd key newIPs) w2
                                  else (True, w2))
                  in if \<not> r3 then (Threw, w3) else (Returned, w3))))"

definition updateIPs :: "deps \<Rightarrow> (cmd \<Rightarrow> bool) \<Rightarrow> nat \<Rightarrow> identity \<times> world \<Rightarrow> outcome \<times> identity \<times> world" where
  "updateIPs d ok ips s =
     (let idn = fst s;
          (same, w0) = ips_not_changed ips idn (snd s)
      in if same then (Returned, idn, w0)
         else
           (let w1 = flush_and_populate d ok (uniqueId idn) (heap w0 ips) w0;
                (r, w2) = reconcile_registry ok (getRedisSetName (namespace d) (uniqueId idn))
                            (heap w1 ips) w1
            in case r of
                 Threw \<Rightarrow> (Threw, idn, w2)
               | Returned \<Rightarrow> (Returned, idn\<lparr>priv_ips := Some ips\<rparr>, w2)))"

text \<open>\<open>getIPs\<close> returns the stored reference, or a newly made empty array.\<close>

datatype ips_value = Ref nat | NewArray "string list"

definition getIPs :: "identity \<Rightarrow> ips_value" where
  "getIPs idn = (case priv_ips idn of Some a \<Rightarrow> Ref a | None \<Rightarrow> NewArray [])"

section \<open>Identity.vpnClient\<close>

text \<open>\<open>policy.state\<close> is compared with \<open>true\<close>, \<open>null\<close> and \<open>false\<close> by \<open>===\<close>; any
  other value takes none of the three branches.\<close>

datatype vpn_state = St_true | St_null | St_false | St_other

record vpn_policy =
  vp_state :: vpn_state
  vp_profileId :: "string option"

definition exec_all :: "(cmd \<Rightarrow> bool) \<Rightarrow> cmd list \<Rightarrow> world \<Rightarrow> world" where
  "exec_all ok cs w = fold (exec_catch ok) cs w"

definition route_rule :: "deps \<Rightarrow> string \<Rightarrow> string \<Rightarrow> rule" where
  "route_rule d u p =
     comment (getPolicyKey (namespace d) u)
       (jmp (''SET --map-set '' @ getRouteIpsetName d p @ '' dst,dst --map-mark'')
          (chn ''FW_RT_TAG_DEVICE_5'' (new_Rule ''mangle'')))"

definition rule4_of :: "deps \<Rightarrow> string \<Rightarrow> rule \<Rightarrow> rule" where
  "rule4_of d u r =
     mdl ''set'' (''--match-set '' @ getEnforcementIPsetName (namespace d) u 4 @ '' src'') r"

definition rule6_of :: "deps \<Rightarrow> string \<Rightarrow> rule \<Rightarrow> rule" where
  "rule6_of d u r =
     fam 6 (mdl ''set'' (''--match-set '' @ getEnforcementIPsetName (namespace d) u 6 @ '' src'') r)"

definition clear_mark :: "deps \<Rightarrow> string" where
  "clear_mark d = ''MARK --set-xmark 0x0000/'' @ MASK_VC d"

text \<open>The four rules of an identity and a profile: the active rule and the neutralized
  rule, for each family.\<close>

definition active4 :: "deps \<Rightarrow> string \<Rightarrow> string \<Rightarrow> rule" where
  "active4 d u p = rule4_of d u (route_rule d u p)"

definition active6 :: "deps \<Rightarrow> string \<Rightarrow> string \<Rightarrow> rule" where
  "active6 d u p = rule6_of d u (route_rule d u p)"

definition neutral4 :: "deps \<Rightarrow> string \<Rightarrow> string \<Rightarrow> rule" where
  "neutral4 d u p = jmp (clear_mark d) (active4 d u p)"

definition neutral6 :: "deps \<Rightarrow> string \<Rightarrow> string \<Rightarrow> rule" where
  "neutral6 d u p = jmp (clear_mark d) (active6 d u p)"

text \<open>The first block of \<open>vpnClient\<close>: the rules of the previous profile are deleted
  when there is one and the requested profile differs from it.\<close>

definition remove_old_rules :: "deps \<Rightarrow> (cmd \<Rightarrow> bool) \<Rightarrow> vpn_policy \<Rightarrow> identity \<Rightarrow> world \<Rightarrow> world" where
  "remove_old_rules d ok pol idn w =
     (if truthy (priv_profileId idn) \<and> vp_profileId pol \<noteq> priv_profileId idn then
        (case priv_profileId idn of
           None \<Rightarrow> w
         | Some old \<Rightarrow>
             exec_all ok
               [Iptables Delete (active4 d (uniqueId idn) old), Iptables Delete (active6 d (uniqueId idn) old),
                Iptables Delete (neutral4 d (uniqueId idn) old), Iptables Delete (neutral6 d (uniqueId idn) old)] w)
      else w)"

text \<open>The branch on \<open>policy.state\<close>.\<close>

definition apply_state :: "deps \<Rightarrow> (cmd \<Rightarrow> bool) \<Rightarrow> vpn_state \<Rightarrow> string \<Rightarrow> string \<Rightarrow> world \<Rightarrow> world" where
  "apply_state d ok st u p w =
     (case st of
        St_true \<Rightarrow>
          exec_all ok
            [Iptables Append (active4 d u p), Iptables Append (active6 d u p),
             Iptables Delete (neutral4 d u p), Iptables Delete (neutral6 d u p)] w
      | St_null \<Rightarrow>
          exec_all ok
            [Iptables Delete (active4 d u p), Iptables Delete (active6 d u p),
             Iptables Append (neutral4 d u p), Iptables Append (neutral6 d u p)] w
      | St_false \<Rightarrow>
          exec_all ok
            [Iptables Delete (active4 d u p), Iptables Delete (active6 d u p),
             Iptables Delete (neutral4 d u p), Iptables Delete (neutral6 d u p)] w
      | St_other \<Rightarrow> w)"

text \<open>
  \<open>vpnClient\<close>. The whole body is inside \<open>try\<close>: the one awaited call without a
  \<open>catch\<close> of its own is \<open>VPNClient.ensureCreateEnforcementEnv\<close>, and when it fails the
  rest of the body is skipped and the call still returns.
\<close>

definition vpnClient :: "deps \<Rightarrow> (cmd \<Rightarrow> bool) \<Rightarrow> vpn_policy \<Rightarrow> identity \<times> world \<Rightarrow> identity \<times> world" where
  "vpnClient d ok pol s =
     (let idn = fst s;
          w1 = remove_old_rules d ok pol idn (snd s);
          idn1 = idn\<lparr>priv_profileId := vp_profileId pol\<rparr>
      in case vp_profileId pol of
           None \<Rightarrow> (idn1, w1)
         | Some p \<Rightarrow>
             if p = [] then (idn1, w1)
             else
               (let (r, w2) = exec ok (VpnProfileEnv p) w1
                in if \<not> r then (idn1, w2)
                   else
                     (let w3 = ensureCreateEnforcementEnv d ok (uniqueId idn) w2
                      in (idn1, apply_state d ok (vp_state pol) (uniqueId idn) p w3))))"

text \<open>A sequence of calls, each with its policy and its environment.\<close>

fun vpnClient_calls :: "deps \<Rightarrow> ((cmd \<Rightarrow> bool) \<times> vpn_policy) list \<Rightarrow> identity \<times> world \<Rightarrow> identity \<times> world" where
  "vpnClient_calls d [] s = s"
| "vpnClient_calls d (c # cs) s = vpnClient_calls d cs (vpnClient d (fst c) (snd c) s)"

section \<open>Identity.aclTimer\<close>














section \<open>DockerBaseVPNClient: the subnet allocator\<close>

text \<open>
  An IPv4 address is its 32-bit number (what \<open>bigInteger()\<close> gives); a subnet is a
  base address with a prefix length. The allocator's result \<open>subnet + "/24"\<close> is the
  pair of the candidate address and 24.
\<close>

type_synonym cidr = "nat \<times> nat"

definition ipv4 :: "nat \<Rightarrow> nat \<Rightarrow> nat \<Rightarrow> nat \<Rightarrow> nat" where
  "ipv4 a b c e = ((a * 256 + b) * 256 + c) * 256 + e"

definition in_cidr :: "nat \<Rightarrow> cidr \<Rightarrow> bool" where
  "in_cidr a c = (a div 2 ^ (32 - snd c) = fst c div 2 ^ (32 - snd c))"

text \<open>Two subnets intersect when some address lies in both.\<close>

definition cidr_intersect :: "cidr \<Rightarrow> cidr \<Rightarrow> bool" where
  "cidr_intersect c1 c2 = (\<exists>a. in_cidr a c1 \<and> in_cidr a c2)"

text \<open>
  Modelled from the spec: \<open>sysManager.inMySubnets4\<close> (\<open>net2/SysManager.js\<close>) is not
  among the sources. The allocator hands it the candidate's base address alone (the
  dotted form, without a prefix length); the address is in my subnets when it lies in
  one of the locally attached subnets.
\<close>

definition inMySubnets4 :: "cidr list \<Rightarrow> nat \<Rightarrow> bool" where
  "inMySubnets4 locals a = (\<exists>c \<in> set locals. in_cidr a c)"

text \<open>\<open>ipRangeRandomMap\<close>, in the order of its keys: the start address of each private
  range with the number of random bits.\<close>

definition ipRangeRandomMap :: "(cidr \<times> nat) list" where
  "ipRangeRandomMap =
     [((ipv4 10 0 0 0, 8), 16), ((ipv4 172 16 0 0, 12), 12), ((ipv4 192 168 0 0, 16), 8)]"

text \<open>
  The loop of \<open>_generateRamdomNetwork\<close>. Each turn takes the next value of
  \<open>Math.random()\<close> from the list of draws; the loop has no bound of its own, and the
  result is \<open>None\<close> when the draws run out before a candidate is accepted.
\<close>

fun generateRamdomNetwork_loop :: "cidr list \<Rightarrow> nat \<Rightarrow> rat list \<Rightarrow> cidr option" where
  "generateRamdomNetwork_loop locals index0 [] = None"
| "generateRamdomNetwork_loop locals index0 (u # us) =
     (let index = index0 mod 3;
          startAddress = fst (ipRangeRandomMap ! index);
          randomBits = snd (ipRangeRandomMap ! index);
          randomOffsets = nat \<lfloor>u * 2 ^ randomBits\<rfloor> * 256;
          subnet = fst startAddress + randomOffsets
      in if \<not> inMySubnets4 locals subnet then Some (subnet, 24)
         else generateRamdomNetwork_loop locals (index + 1) us)"

definition generateRamdomNetwork :: "cidr list \<Rightarrow> rat list \<Rightarrow> cidr option" where
  "generateRamdomNetwork locals draws = generateRamdomNetwork_loop locals 0 draws"

section \<open>DockerBaseVPNClient: the link-up poller of start\<close>

text \<open>
  What the loop reads: the content of the interface's carrier file at each attempt
  (\<open>None\<close> when the read fails), the content of the profile's subnet file, the address
  arithmetic of the \<open>ip-address\<close> library (the address \<open>n\<close> above a subnet's base, in
  dotted form) and whether \<open>routing.addRouteToTable\<close> succeeds.
\<close>

record poll_env =
  carrier_read :: "nat \<Rightarrow> string option"
  subnet_file :: "string option"
  addr_plus :: "string \<Rightarrow> nat \<Rightarrow> string"
  route_ok :: bool

text \<open>What the loop does: how often it read the carrier file, how often it slept, and
  the calls of \<open>addRouteToTable\<close> (destination, interface, table).\<close>

record poll_state =
  checks :: nat
  delays :: nat
  route_calls :: "(string \<times> string \<times> string) list"

definition getRemoteIP :: "poll_env \<Rightarrow> string option" where
  "getRemoteIP e =
     (case map_option trim (subnet_file e) of
        None \<Rightarrow> None
      | Some subnet \<Rightarrow> if subnet \<noteq> [] then Some (addr_plus e subnet 2) else None)"

function link_up_poll :: "poll_env \<Rightarrow> string \<Rightarrow> nat \<Rightarrow> poll_state \<Rightarrow> outcome \<times> poll_state" where
  "link_up_poll e intf t st =
     (if t < 30 then
        (let carrier = map_option trim (carrier_read e t);
             st1 = st\<lparr>checks := Suc (checks st)\<rparr>
         in if carrier = Some ''1'' then
              (if truthy (getRemoteIP e) then
                 (case getRemoteIP e of
                    None \<Rightarrow> (Returned, st1)
                  | Some remoteIP \<Rightarrow>
                      (if route_ok e then Returned else Threw,
                       st1\<lparr>route_calls := route_calls st1 @ [(remoteIP, intf, ''wan_routable'')]\<rparr>))
               else (Returned, st1))
            else link_up_poll e intf (Suc t) (st1\<lparr>delays := Suc (delays st1)\<rparr>))
      else (Returned, st))"
  by pat_completeness auto
termination
  by (relation "measure (\<lambda>(e, intf, t, st). 30 - t)") auto

definition start_poll :: "poll_env \<Rightarrow> string \<Rightarrow> outcome \<times> poll_state" where
  "start_poll e intf = link_up_poll e intf 0 \<lparr>checks = 0, delays = 0, route_calls = []\<rparr>"

text \<open>Readiness is observed at attempt \<open>t\<close>: the carrier file, trimmed, reads \<open>1\<close>.\<close>

definition ready_at :: "poll_env \<Rightarrow> nat \<Rightarrow> bool" where
  "ready_at e t = (map_option trim (carrier_read e t) = Some ''1'')"

section \<open>Notions used in the statements\<close>

text \<open>
  What a call leaves in the chain, as the state of its policy asks: for \<open>true\<close> the
  active rule of the profile is present and the neutralized rule absent, for \<open>null\<close>
  the neutralized rule is present and the active rule absent, for \<open>false\<close> both are
  absent; each for both families.
\<close>

definition vpn_post :: "deps \<Rightarrow> string \<Rightarrow> vpn_policy \<Rightarrow> world \<Rightarrow> bool" where
  "vpn_post d u pol w =
     (case vp_profileId pol of
        None \<Rightarrow> False
      | Some p \<Rightarrow>
          (case vp_state pol of
             St_true \<Rightarrow>
               active4 d u p \<in> set (rules w) \<and> active6 d u p \<in> set (rules w)
               \<and> neutral4 d u p \<notin> set (rules w) \<and> neutral6 d u p \<notin> set (rules w)
           | St_null \<Rightarrow>
               neutral4 d u p \<in> set (rules w) \<and> neutral6 d u p \<in> set (rules w)
               \<and> active4 d u p \<notin> set (rules w) \<and> active6 d u p \<notin> set (rules w)
           | St_false \<Rightarrow>
               active4 d u p \<notin> set (rules w) \<and> active6 d u p \<notin> set (rules w)
               \<and> neutral4 d u p \<notin> set (rules w) \<and> neutral6 d u p \<notin> set (rules w)
           | St_other \<Rightarrow> False))"

text \<open>The rules of the chain that carry the identity's policy key as comment, and the
  rules a policy asks for.\<close>

definition own_rules :: "deps \<Rightarrow> string \<Rightarrow> world \<Rightarrow> rule set" where
  "own_rules d u w = {r \<in> set (rules w). r_comment r = getPolicyKey (namespace d) u}"

definition expected_rules :: "deps \<Rightarrow> string \<Rightarrow> vpn_policy \<Rightarrow> rule set" where
  "expected_rules d u pol =
     (case vp_profileId pol of
        None \<Rightarrow> {}
      | Some p \<Rightarrow>
          (case vp_state pol of
             St_true \<Rightarrow> {active4 d u p, active6 d u p}
           | St_null \<Rightarrow> {neutral4 d u p, neutral6 d u p}
           | St_false \<Rightarrow> {}
           | St_other \<Rightarrow> {}))"

text \<open>The identity owns no rule but the neutralized rules and the active rules of the
  profile it has recorded.\<close>

definition own_clean :: "deps \<Rightarrow> identity \<times> world \<Rightarrow> bool" where
  "own_clean d s =
     (own_rules d (uniqueId (fst s)) (snd s)
        \<subseteq> {neutral4 d (uniqueId (fst s)) [], neutral6 d (uniqueId (fst s)) []}
          \<union> (case priv_profileId (fst s) of
               None \<Rightarrow> {}
             | Some p \<Rightarrow>
                 if p = [] then {}
                 else {active4 d (uniqueId (fst s)) p, active6 d (uniqueId (fst s)) p}))"

text \<open>A call of the sequence: every operation succeeds, the profile id is not empty
  and the state is one of \<open>true\<close>, \<open>null\<close>, \<open>false\<close>.\<close>

definition good_call :: "(cmd \<Rightarrow> bool) \<times> vpn_policy \<Rightarrow> bool" where
  "good_call c = ((\<forall>x. fst c x) \<and> truthy (vp_profileId (snd c)) \<and> vp_state (snd c) \<noteq> St_other)"

text \<open>The four deletions of the first block of \<open>vpnClient\<close>.\<close>

definition old_rule_deletes :: "deps \<Rightarrow> string \<Rightarrow> string \<Rightarrow> cmd list" where
  "old_rule_deletes d u old =
     [Iptables Delete (active4 d u old), Iptables Delete (active6 d u old),
      Iptables Delete (neutral4 d u old), Iptables Delete (neutral6 d u old)]"

text \<open>The operations on the persisted registry.\<close>

fun is_registry_op :: "cmd \<Rightarrow> bool" where
  "is_registry_op (RedisSmembers k) = True"
| "is_registry_op (RedisSrem k xs) = True"
| "is_registry_op (RedisSadd k xs) = True"
| "is_registry_op c = False"

text \<open>The members of the identity's family set, the persisted registry, and the valid
  addresses of a list by family as the loop of \<open>updateIPs\<close> classifies them.\<close>

definition family_set :: "deps \<Rightarrow> string \<Rightarrow> nat \<Rightarrow> world \<Rightarrow> string set" where
  "family_set d u af w =
     (case ipsets w (getEnforcementIPsetName (namespace d) u af) of
        None \<Rightarrow> {}
      | Some xs \<Rightarrow> set xs)"

definition registry :: "deps \<Rightarrow> string \<Rightarrow> world \<Rightarrow> string set" where
  "registry d u w = set (redis w (getRedisSetName (namespace d) u))"

definition valid_v4 :: "deps \<Rightarrow> string list \<Rightarrow> string set" where
  "valid_v4 d ips = {ip \<in> set ips. valid4 d ip}"

definition valid_v6 :: "deps \<Rightarrow> string list \<Rightarrow> string set" where
  "valid_v6 d ips = {ip \<in> set ips. \<not> valid4 d ip \<and> valid6 d ip}"

text \<open>The list \<open>ips\<close> is applied: the registry holds its addresses with the host
  suffixes stripped, and the family sets hold its valid addresses by family.\<close>

definition applied :: "deps \<Rightarrow> string \<Rightarrow> string list \<Rightarrow> world \<Rightarrow> bool" where
  "applied d u ips w =
     (registry d u w = strip_host_suffix ` set ips
      \<and> family_set d u 4 w = valid_v4 d ips
      \<and> family_set d u 6 w = valid_v6 d ips)"

text \<open>
  The state \<open>updateIPs\<close> starts from: the two family sets exist, the registry holds
  stripped entries only (as \<open>updateIPs\<close> writes them), and the list the identity has
  recorded, if any, is the one applied.
\<close>

definition converged :: "deps \<Rightarrow> identity \<times> world \<Rightarrow> bool" where
  "converged d s =
     (ipsets (snd s) (getEnforcementIPsetName (namespace d) (uniqueId (fst s)) 4) \<noteq> None
      \<and> ipsets (snd s) (getEnforcementIPsetName (namespace d) (uniqueId (fst s)) 6) \<noteq> None
      \<and> list_all (\<lambda>x. strip_host_suffix x = x)
           (redis (snd s) (getRedisSetName (namespace d) (uniqueId (fst s))))
      \<and> (case priv_ips (fst s) of
            None \<Rightarrow> True
          | Some p \<Rightarrow> applied d (uniqueId (fst s)) (heap (snd s) p) (snd s)))"



text \<open>Readiness is observed at some attempt from \<open>t\<close> on, within the budget of 30.\<close>

definition ready_from :: "poll_env \<Rightarrow> nat \<Rightarrow> bool" where
  "ready_from e t = (\<exists>k. t \<le> k \<and> k < 30 \<and> ready_at e k)"

text \<open>The route the poller injects, if the remote address resolves.\<close>

definition route_of :: "poll_env \<Rightarrow> string \<Rightarrow> (string \<times> string \<times> string) list" where
  "route_of e intf =
     (case getRemoteIP e of
        None \<Rightarrow> []
      | Some ip \<Rightarrow> if ip \<noteq> [] then [(ip, intf, ''wan_routable'')] else [])"

section \<open>Concrete inputs\<close>

definition deps0 :: deps where
  "deps0 = \<lparr>namespace = ''wg'', userConfigFolder = ''/cfg'',
     valid4 = (\<lambda>s. CHR ''.'' \<in> set s), valid6 = (\<lambda>s. CHR '':'' \<in> set s),
     getRouteIpsetName = (\<lambda>p. ''c_rt_'' @ p @ ''_set''), MASK_VC = ''0xffff''\<rparr>"

definition world0 :: world where
  "world0 = \<lparr>ipsets = Map.empty, rules = [], files = Map.empty, redis = (\<lambda>k. []),
     heap = (\<lambda>a. []), envCreatedMap = (\<lambda>k. False), restarts = 0, trace = []\<rparr>"

definition identity0 :: identity where
  "identity0 = \<lparr>uniqueId = ''peer1'', priv_ips = None, priv_profileId = None,
     priv_aclTimer = None, policy = Map.empty\<rparr>"


definition all_ok :: "cmd \<Rightarrow> bool" where
  "all_ok c = True"

definition calls0 :: "((cmd \<Rightarrow> bool) \<times> vpn_policy) list" where
  "calls0 = [(all_ok, \<lparr>vp_state = St_true, vp_profileId = Some ''P1''\<rparr>),
             (all_ok, \<lparr>vp_state = St_null, vp_profileId = Some ''P2''\<rparr>)]"

text \<open>Environments in which the set commands fail, and in which the registry fails.\<close>

fun ipset_down :: "cmd \<Rightarrow> bool" where
  "ipset_down (IpsetCreate n t) = False"
| "ipset_down (IpsetFlush n) = False"
| "ipset_down (IpsetBatchAdd es) = False"
| "ipset_down c = True"

fun redis_down :: "cmd \<Rightarrow> bool" where
  "redis_down (RedisSmembers k) = False"
| "redis_down (RedisSrem k xs) = False"
| "redis_down (RedisSadd k xs) = False"
| "redis_down c = True"

text \<open>An environment in which only adding to the registry fails.\<close>

fun sadd_down :: "cmd \<Rightarrow> bool" where
  "sadd_down (RedisSadd k xs) = False"
| "sadd_down c = True"

definition world1 :: world where
  "world1 = world0\<lparr>heap := (\<lambda>a. [])(5 := [''10.0.0.2'', ''10.0.0.1''], 7 := [''fd00::2'', ''10.0.0.9/32''])\<rparr>"

definition world2 :: world where
  "world2 = world1\<lparr>ipsets := [''c_wg_peer1_set'' \<mapsto> [''10.9.9.9''], ''c_wg_peer1_set6'' \<mapsto> []]\<rparr>"

text \<open>A chain that holds rules of profile \<open>P1\<close> for the identity \<open>peer1\<close>.\<close>

definition world_p1 :: world where
  "world_p1 = world0\<lparr>rules := [active4 deps0 ''peer1'' ''P1'', active6 deps0 ''peer1'' ''P1'',
     neutral4 deps0 ''peer1'' ''P1'']\<rparr>"

text \<open>
  Two calls of \<open>updateIPs\<close> with something happening to the caller's arrays in between.
  \<open>after_first\<close> is the state after a first call with the array at address 5 in an
  environment where every operation succeeds. In \<open>heap_other\<close> the caller has then
  stored a new list in the array at address 7, which the identity does not hold; in
  \<open>reused\<close> the caller has stored a new list in the array at address 5, the one it
  passed to the first call and will pass again. \<open>after_failed\<close> is the state after a
  first call during which the set commands failed.
\<close>

definition after_first :: "identity \<times> world" where
  "after_first = snd (updateIPs deps0 all_ok 5 (identity0, world2))"

definition heap_other :: "nat \<Rightarrow> string list" where
  "heap_other = (heap (snd after_first))(7 := [''fd00::3'', ''10.0.0.9/32''])"

definition reused :: "identity \<times> world" where
  "reused = (fst after_first,
             (snd after_first)\<lparr>heap := (heap (snd after_first))(5 := [''10.0.0.3''])\<rparr>)"

definition after_failed :: "identity \<times> world" where
  "after_failed = snd (updateIPs deps0 ipset_down 5 (identity0, world2))"




text \<open>Environments of the poller: the link comes up at the fourth attempt and the subnet
  file is there; the link is up at once but there is no subnet file; the link never
  comes up.\<close>

definition env_up :: poll_env where
  "env_up = \<lparr>carrier_read = (\<lambda>t. if t = 3 then Some [CHR ''1'', CHR 0x0A] else Some ''0''),
     subnet_file = Some ''10.1.2.0/24'', addr_plus = (\<lambda>s n. ''10.1.2.2''), route_ok = True\<rparr>"

definition env_no_subnet :: poll_env where
  "env_no_subnet = \<lparr>carrier_read = (\<lambda>t. Some [CHR ''1'', CHR 0x0A]),
     subnet_file = None, addr_plus = (\<lambda>s n. ''10.1.2.2''), route_ok = True\<rparr>"

definition env_never :: poll_env where
  "env_never = \<lparr>carrier_read = (\<lambda>t. None),
     subnet_file = Some ''10.1.2.0/24'', addr_plus = (\<lambda>s n. ''10.1.2.2''), route_ok = True\<rparr>"

section \<open>Properties of the names\<close>

lemma substring_0: "substring 0 n s = take n s"
  by (simp add: substring_def)

text \<open>
  Claim C9. The enforcement set names depend only on the namespace and the first 12
  characters of the unique id, the IPv6 name is the IPv4 name followed by \<open>6\<close>, and so
  two unique ids of one namespace that agree on their first 12 characters get the same
  pair of sets.
\<close>

theorem enforcement_set_name_prefix:
  "getEnforcementIPsetName ns uid af = getEnforcementIPsetName ns (take 12 uid) af
   \<and> getEnforcementIPsetName ns uid 6 = getEnforcementIPsetName ns uid 4 @ ''6''
   \<and> (take 12 u1 = take 12 u2 \<longrightarrow>
        getEnforcementIPsetName ns u1 4 = getEnforcementIPsetName ns u2 4
        \<and> getEnforcementIPsetName ns u1 6 = getEnforcementIPsetName ns u2 6)"
  by (simp add: getEnforcementIPsetName_def substring_0)

theorem enforcement_set_name_prefix_witness:
  "''0123456789abX'' \<noteq> ''0123456789abY''
   \<and> getEnforcementIPsetName ''wg'' ''0123456789abX'' 4
       = getEnforcementIPsetName ''wg'' ''0123456789abY'' 4
   \<and> getEnforcementIPsetName ''wg'' ''0123456789abX'' 6
       = getEnforcementIPsetName ''wg'' ''0123456789abY'' 6
   \<and> getEnforcementIPsetName ''wg'' ''0123456789abX'' 4 = ''c_wg_0123456789ab_set''"
  using enforcement_set_name_prefix [of "''wg''" "''0123456789abX''" 4
      "''0123456789abX''" "''0123456789abY''"]
  by (simp add: getEnforcementIPsetName_def substring_0)

section \<open>Idempotent environment creation\<close>

lemma exec_catch_simps:
  "exec_catch ok c w = (if ok c then effect c (w\<lparr>trace := trace w @ [c]\<rparr>) else w\<lparr>trace := trace w @ [c]\<rparr>)"
  by (simp add: exec_catch_def exec_def)

lemma ensure_marks:
  "envCreatedMap (ensureCreateEnforcementEnv d ok u w) (instanceKey (namespace d) u)"
  by (simp add: ensureCreateEnforcementEnv_def Let_def exec_catch_simps scheduleRestartDNSService_def
      split: option.splits)

lemma ensure_created:
  "envCreatedMap w (instanceKey (namespace d) u) \<Longrightarrow>
   ensureCreateEnforcementEnv d ok u w =
     scheduleRestartDNSService
       (exec_catch ok (WriteFile (dnsmasq_conf_path d u) (dnsmasq_conf_content d u)) w)"
  by (simp add: ensureCreateEnforcementEnv_def Let_def exec_catch_simps scheduleRestartDNSService_def)

lemma ensure_files:
  "ok (WriteFile (dnsmasq_conf_path d u) (dnsmasq_conf_content d u)) \<Longrightarrow>
   files (ensureCreateEnforcementEnv d ok u w) (dnsmasq_conf_path d u) = Some (dnsmasq_conf_content d u)"
  by (simp add: ensureCreateEnforcementEnv_def Let_def exec_catch_simps scheduleRestartDNSService_def
      split: option.splits)

lemma ensure_second_call:
  "ensureCreateEnforcementEnv d ok2 u (ensureCreateEnforcementEnv d ok1 u w) =
     scheduleRestartDNSService
       (exec_catch ok2 (WriteFile (dnsmasq_conf_path d u) (dnsmasq_conf_content d u))
          (ensureCreateEnforcementEnv d ok1 u w))"
  by (rule ensure_created) (rule ensure_marks)

text \<open>
  Claim C6. A second call of \<open>ensureCreateEnforcementEnv\<close> for the same unique id
  leaves the sets and the created-marking as the first call left them and issues one
  operation only, the file write, so no set creation; and unless the first write failed
  and the second succeeded, the state after two calls is the state after one call
  (apart from the count of restart requests and the trace).
\<close>

theorem ensure_env_twice:
  "ipsets (ensureCreateEnforcementEnv d ok2 u (ensureCreateEnforcementEnv d ok1 u w))
     = ipsets (ensureCreateEnforcementEnv d ok1 u w)
   \<and> envCreatedMap (ensureCreateEnforcementEnv d ok2 u (ensureCreateEnforcementEnv d ok1 u w))
     = envCreatedMap (ensureCreateEnforcementEnv d ok1 u w)
   \<and> issued (ensureCreateEnforcementEnv d ok1 u w)
        (ensureCreateEnforcementEnv d ok2 u (ensureCreateEnforcementEnv d ok1 u w))
     = [WriteFile (dnsmasq_conf_path d u) (dnsmasq_conf_content d u)]
   \<and> filter is_create
        (issued (ensureCreateEnforcementEnv d ok1 u w)
           (ensureCreateEnforcementEnv d ok2 u (ensureCreateEnforcementEnv d ok1 u w))) = []
   \<and> ((ok2 (WriteFile (dnsmasq_conf_path d u) (dnsmasq_conf_content d u))
         \<longrightarrow> ok1 (WriteFile (dnsmasq_conf_path d u) (dnsmasq_conf_content d u)))
        \<longrightarrow> ensureCreateEnforcementEnv d ok2 u (ensureCreateEnforcementEnv d ok1 u w)
            = (ensureCreateEnforcementEnv d ok1 u w)
                \<lparr>restarts := Suc (restarts (ensureCreateEnforcementEnv d ok1 u w)),
                 trace := trace (ensureCreateEnforcementEnv d ok1 u w)
                    @ [WriteFile (dnsmasq_conf_path d u) (dnsmasq_conf_content d u)]\<rparr>)"
proof -
  let ?w1 = "ensureCreateEnforcementEnv d ok1 u w"
  let ?c = "WriteFile (dnsmasq_conf_path d u) (dnsmasq_conf_content d u)"
  have idem: "(files ?w1)(dnsmasq_conf_path d u \<mapsto> dnsmasq_conf_content d u) = files ?w1"
    if "ok1 ?c"
    using ensure_files[of ok1 d u w] that by (auto simp: fun_upd_idem_iff)
  show ?thesis
    unfolding ensure_second_call
    using idem by (simp add: exec_catch_simps scheduleRestartDNSService_def issued_def)
qed


lemma names0:
  "dnsmasq_conf_path deps0 ''peer1'' = ''/cfg/dnsmasq/wg_peer1.conf''"
  "dnsmasq_conf_content deps0 ''peer1'' = ''redis-src-address-group=%wg:addresses:peer1@wg_peer1''"
  "getEnforcementIPsetName (namespace deps0) ''peer1'' 4 = ''c_wg_peer1_set''"
  "getEnforcementIPsetName (namespace deps0) ''peer1'' 6 = ''c_wg_peer1_set6''"
  "instanceKey (namespace deps0) ''peer1'' = ''wg:peer1''"
  by (simp_all add: deps0_def dnsmasq_conf_path_def dnsmasq_conf_content_def getDnsmasqConfigDirectory_def
     getDnsmasqConfigFilenamePrefix_def getRedisSetName_def getEnforcementDnsmasqGroupId_def
     getEnforcementIPsetName_def substring_def instanceKey_def)

lemma ensure0:
  "ensureCreateEnforcementEnv deps0 all_ok ''peer1'' world0 =
    \<lparr>ipsets = [''c_wg_peer1_set'' \<mapsto> [], ''c_wg_peer1_set6'' \<mapsto> []], rules = [],
     files = [''/cfg/dnsmasq/wg_peer1.conf'' \<mapsto> ''redis-src-address-group=%wg:addresses:peer1@wg_peer1''],
     redis = (\<lambda>k. []), heap = (\<lambda>a. []), envCreatedMap = (\<lambda>k. False)(''wg:peer1'' := True),
     restarts = 1,
     trace = [WriteFile ''/cfg/dnsmasq/wg_peer1.conf'' ''redis-src-address-group=%wg:addresses:peer1@wg_peer1'',
              IpsetCreate ''c_wg_peer1_set'' ''hash:net'',
              IpsetCreate ''c_wg_peer1_set6'' ''hash:net family inet6'']\<rparr>"
  by (simp add: ensureCreateEnforcementEnv_def Let_def names0 exec_catch_simps scheduleRestartDNSService_def
     all_ok_def world0_def)


theorem ensure_env_twice_witness:
  "all_ok (WriteFile (dnsmasq_conf_path deps0 ''peer1'') (dnsmasq_conf_content deps0 ''peer1''))
   \<and> ensureCreateEnforcementEnv deps0 all_ok ''peer1''
       (ensureCreateEnforcementEnv deps0 all_ok ''peer1'' world0)
     = (ensureCreateEnforcementEnv deps0 all_ok ''peer1'' world0)
         \<lparr>restarts := 2,
          trace := trace (ensureCreateEnforcementEnv deps0 all_ok ''peer1'' world0)
            @ [WriteFile ''/cfg/dnsmasq/wg_peer1.conf''
                 ''redis-src-address-group=%wg:addresses:peer1@wg_peer1'']\<rparr>
   \<and> ipsets (ensureCreateEnforcementEnv deps0 all_ok ''peer1'' world0)
     = [''c_wg_peer1_set'' \<mapsto> [], ''c_wg_peer1_set6'' \<mapsto> []]"
  using ensure_env_twice [of deps0 all_ok "''peer1''" all_ok world0]
  by (simp add: names0 ensure0 all_ok_def)

section \<open>The VPN client rules\<close>

lemma rule_fields:
  "r_family (active4 d u p) = 4" "r_family (active6 d u p) = 6"
  "r_family (neutral4 d u p) = 4" "r_family (neutral6 d u p) = 6"
  "r_jump (active4 d u p) = ''SET --map-set '' @ getRouteIpsetName d p @ '' dst,dst --map-mark''"
  "r_jump (active6 d u p) = ''SET --map-set '' @ getRouteIpsetName d p @ '' dst,dst --map-mark''"
  "r_jump (neutral4 d u p) = ''MARK --set-xmark 0x0000/'' @ MASK_VC d"
  "r_jump (neutral6 d u p) = ''MARK --set-xmark 0x0000/'' @ MASK_VC d"
  "r_comment (active4 d u p) = getPolicyKey (namespace d) u"
  "r_comment (active6 d u p) = getPolicyKey (namespace d) u"
  "r_comment (neutral4 d u p) = getPolicyKey (namespace d) u"
  "r_comment (neutral6 d u p) = getPolicyKey (namespace d) u"
  by (simp_all add: active4_def active6_def neutral4_def neutral6_def rule4_of_def rule6_of_def
      route_rule_def comment_def jmp_def chn_def mdl_def fam_def new_Rule_def clear_mark_def)

lemma neutral_indep:
  "neutral4 d u p = neutral4 d u q" "neutral6 d u p = neutral6 d u q"
  by (simp_all add: active4_def active6_def neutral4_def neutral6_def rule4_of_def rule6_of_def
      route_rule_def comment_def jmp_def chn_def mdl_def fam_def new_Rule_def clear_mark_def)

lemma rules_distinct:
  "active4 d u p \<noteq> neutral4 d u q" "active6 d u p \<noteq> neutral6 d u q"
  "active4 d u p \<noteq> active6 d u q" "active4 d u p \<noteq> neutral6 d u q"
  "neutral4 d u p \<noteq> active6 d u q" "neutral4 d u p \<noteq> neutral6 d u q"
proof -
  show "active4 d u p \<noteq> neutral4 d u q"
  proof
    assume "active4 d u p = neutral4 d u q"
    then have "r_jump (active4 d u p) = r_jump (neutral4 d u q)" by simp
    then show False by (simp add: rule_fields)
  qed
  show "active6 d u p \<noteq> neutral6 d u q"
  proof
    assume "active6 d u p = neutral6 d u q"
    then have "r_jump (active6 d u p) = r_jump (neutral6 d u q)" by simp
    then show False by (simp add: rule_fields)
  qed
  show "active4 d u p \<noteq> active6 d u q"
  proof
    assume "active4 d u p = active6 d u q"
    then have "r_family (active4 d u p) = r_family (active6 d u q)" by simp
    then show False by (simp add: rule_fields)
  qed
  show "active4 d u p \<noteq> neutral6 d u q"
  proof
    assume "active4 d u p = neutral6 d u q"
    then have "r_family (active4 d u p) = r_family (neutral6 d u q)" by simp
    then show False by (simp add: rule_fields)
  qed
  show "neutral4 d u p \<noteq> active6 d u q"
  proof
    assume "neutral4 d u p = active6 d u q"
    then have "r_family (neutral4 d u p) = r_family (active6 d u q)" by simp
    then show False by (simp add: rule_fields)
  qed
  show "neutral4 d u p \<noteq> neutral6 d u q"
  proof
    assume "neutral4 d u p = neutral6 d u q"
    then have "r_family (neutral4 d u p) = r_family (neutral6 d u q)" by simp
    then show False by (simp add: rule_fields)
  qed
qed

lemma rules_exec_catch:
  "rules (exec_catch ok c w) =
     (if ok c then
        (case c of
           Iptables Append r \<Rightarrow> (if r \<in> set (rules w) then rules w else rules w @ [r])
         | Iptables Delete r \<Rightarrow> removeAll r (rules w)
         | _ \<Rightarrow> rules w)
      else rules w)"
  by (cases c) (auto simp: exec_catch_simps split: option.splits ipt_op.splits)

lemma rules_ensure: "rules (ensureCreateEnforcementEnv d ok u w) = rules w"
  by (simp add: ensureCreateEnforcementEnv_def Let_def rules_exec_catch scheduleRestartDNSService_def)

lemma rules_exec: "rules (snd (exec ok c w)) = rules (exec_catch ok c w)"
  by (simp add: exec_catch_def)

lemma apply_state_post:
  assumes "\<And>c. ok c" "st \<noteq> St_other"
  shows "vpn_post d u \<lparr>vp_state = st, vp_profileId = Some p\<rparr> (apply_state d ok st u p w)"
  using assms
  by (cases st)
     (simp_all add: vpn_post_def apply_state_def exec_all_def rules_exec_catch rules_distinct
        rules_distinct[symmetric])

lemma vpnClient_snd:
  assumes "ok (VpnProfileEnv p)" "p \<noteq> []" "vp_profileId pol = Some p"
  shows "snd (vpnClient d ok pol s) =
           apply_state d ok (vp_state pol) (uniqueId (fst s)) p
             (ensureCreateEnforcementEnv d ok (uniqueId (fst s))
                (exec_catch ok (VpnProfileEnv p) (remove_old_rules d ok pol (fst s) (snd s))))"
  using assms by (simp add: vpnClient_def Let_def exec_def exec_catch_def)

lemma vpnClient_fst:
  "fst (vpnClient d ok pol s) = (fst s)\<lparr>priv_profileId := vp_profileId pol\<rparr>"
  by (simp add: vpnClient_def Let_def split: option.splits prod.splits)

lemma vpnClient_post:
  assumes "\<And>c. ok c" "truthy (vp_profileId pol)" "vp_state pol \<noteq> St_other"
  shows "vpn_post d (uniqueId (fst s)) pol (snd (vpnClient d ok pol s))"
proof -
  from assms(2) obtain p where p: "vp_profileId pol = Some p" "p \<noteq> []"
    by (auto simp: truthy_def split: option.splits)
  have pol: "pol = \<lparr>vp_state = vp_state pol, vp_profileId = Some p\<rparr>"
    using p by (cases pol) simp
  show ?thesis
    unfolding vpnClient_snd[OF assms(1) p(2) p(1)]
    by (subst pol) (rule apply_state_post[OF assms(1) assms(3)])
qed

lemma set_rules_exec_catch:
  "ok c \<Longrightarrow> set (rules (exec_catch ok c w)) =
     (case c of
        Iptables Append r \<Rightarrow> insert r (set (rules w))
      | Iptables Delete r \<Rightarrow> set (rules w) - {r}
      | _ \<Rightarrow> set (rules w))"
  by (cases c) (auto simp: rules_exec_catch split: ipt_op.splits)

lemma set_rules_remove_old:
  assumes "\<And>c. ok c"
  shows "set (rules (remove_old_rules d ok pol idn w)) =
     (if truthy (priv_profileId idn) \<and> vp_profileId pol \<noteq> priv_profileId idn then
        (case priv_profileId idn of None \<Rightarrow> set (rules w)
         | Some old \<Rightarrow> set (rules w) - {active4 d (uniqueId idn) old, active6 d (uniqueId idn) old,
                neutral4 d (uniqueId idn) old, neutral6 d (uniqueId idn) old})
      else set (rules w))"
  using assms
  by (auto simp: remove_old_rules_def exec_all_def set_rules_exec_catch split: option.splits)

lemma set_rules_apply_state:
  assumes "\<And>c. ok c"
  shows "set (rules (apply_state d ok st u p w)) =
     (case st of
        St_true \<Rightarrow> insert (active4 d u p) (insert (active6 d u p) (set (rules w)))
                     - {neutral4 d u p, neutral6 d u p}
      | St_null \<Rightarrow> insert (neutral4 d u p) (insert (neutral6 d u p)
                     (set (rules w) - {active4 d u p, active6 d u p}))
      | St_false \<Rightarrow> set (rules w) - {active4 d u p, active6 d u p, neutral4 d u p, neutral6 d u p}
      | St_other \<Rightarrow> set (rules w))"
  using assms
  by (cases st) (auto simp: apply_state_def exec_all_def set_rules_exec_catch)

lemma set_rules_vpnClient:
  assumes "\<And>c. ok c" "p \<noteq> []" "vp_profileId pol = Some p"
  shows "set (rules (snd (vpnClient d ok pol s))) =
     (case vp_state pol of
        St_true \<Rightarrow> insert (active4 d (uniqueId (fst s)) p) (insert (active6 d (uniqueId (fst s)) p)
              (set (rules (remove_old_rules d ok pol (fst s) (snd s)))))
              - {neutral4 d (uniqueId (fst s)) p, neutral6 d (uniqueId (fst s)) p}
      | St_null \<Rightarrow> insert (neutral4 d (uniqueId (fst s)) p) (insert (neutral6 d (uniqueId (fst s)) p)
              (set (rules (remove_old_rules d ok pol (fst s) (snd s)))
                 - {active4 d (uniqueId (fst s)) p, active6 d (uniqueId (fst s)) p}))
      | St_false \<Rightarrow> set (rules (remove_old_rules d ok pol (fst s) (snd s)))
              - {active4 d (uniqueId (fst s)) p, active6 d (uniqueId (fst s)) p,
                 neutral4 d (uniqueId (fst s)) p, neutral6 d (uniqueId (fst s)) p}
      | St_other \<Rightarrow> set (rules (remove_old_rules d ok pol (fst s) (snd s))))"
  unfolding vpnClient_snd[OF assms(1) assms(2) assms(3)] set_rules_apply_state[OF assms(1)]
  by (cases "vp_state pol") (simp_all add: rules_ensure rules_exec_catch assms(1))

lemma own_active:
  "active4 d u p \<in> own_rules d u w \<longleftrightarrow> active4 d u p \<in> set (rules w)"
  "active6 d u p \<in> own_rules d u w \<longleftrightarrow> active6 d u p \<in> set (rules w)"
  "neutral4 d u p \<in> own_rules d u w \<longleftrightarrow> neutral4 d u p \<in> set (rules w)"
  "neutral6 d u p \<in> own_rules d u w \<longleftrightarrow> neutral6 d u p \<in> set (rules w)"
  by (simp_all add: own_rules_def rule_fields)

lemma vpnClient_exact:
  assumes ok: "\<And>c. ok c" and tr: "truthy (vp_profileId pol)" and st: "vp_state pol \<noteq> St_other"
    and clean: "own_clean d s"
  shows "own_rules d (uniqueId (fst s)) (snd (vpnClient d ok pol s))
           = expected_rules d (uniqueId (fst s)) pol"
proof -
  from tr obtain p where p: "vp_profileId pol = Some p" "p \<noteq> []"
    by (auto simp: truthy_def split: option.splits)
  let ?u = "uniqueId (fst s)"
  have n: "neutral4 d ?u [] = neutral4 d ?u p" "neutral6 d ?u [] = neutral6 d ?u p"
    by (rule neutral_indep)+
  have key: "r_comment (active4 d ?u p) = getPolicyKey (namespace d) ?u"
    "r_comment (active6 d ?u p) = getPolicyKey (namespace d) ?u"
    "r_comment (neutral4 d ?u p) = getPolicyKey (namespace d) ?u"
    "r_comment (neutral6 d ?u p) = getPolicyKey (namespace d) ?u"
    by (simp_all add: rule_fields)
  have old: "{r \<in> set (rules (remove_old_rules d ok pol (fst s) (snd s))).
               r_comment r = getPolicyKey (namespace d) ?u}
             \<subseteq> {neutral4 d ?u p, neutral6 d ?u p, active4 d ?u p, active6 d ?u p}"
    using clean p neutral_indep[of d ?u _ p]
    unfolding own_clean_def own_rules_def set_rules_remove_old[OF ok] n
    by (auto simp: truthy_def split: option.splits if_splits)
  show ?thesis
    unfolding own_rules_def set_rules_vpnClient[OF ok p(2) p(1)] expected_rules_def
    using old st key rules_distinct[of d ?u p p]
    by (cases "vp_state pol") (auto simp: p)
qed

lemma vpnClient_uid: "uniqueId (fst (vpnClient d ok pol s)) = uniqueId (fst s)"
  by (simp add: vpnClient_fst)

lemma expected_sub:
  "vp_profileId pol = Some p \<Longrightarrow>
   expected_rules d u pol \<subseteq> {neutral4 d u [], neutral6 d u [], active4 d u p, active6 d u p}"
  using neutral_indep[of d u p "[]"]
  by (cases "vp_state pol") (auto simp: expected_rules_def)

lemma vpnClient_clean:
  assumes ok: "\<And>c. ok c" and tr: "truthy (vp_profileId pol)" and st: "vp_state pol \<noteq> St_other"
    and clean: "own_clean d s"
  shows "own_clean d (vpnClient d ok pol s)"
proof -
  from tr obtain p where p: "vp_profileId pol = Some p" "p \<noteq> []"
    by (auto simp: truthy_def split: option.splits)
  show ?thesis
    unfolding own_clean_def vpnClient_uid vpnClient_exact[OF ok tr st clean]
    using expected_sub[OF p(1), of d "uniqueId (fst s)"] p
    by (auto simp: vpnClient_fst)
qed

lemma vpnClient_calls_uid: "uniqueId (fst (vpnClient_calls d cs s)) = uniqueId (fst s)"
  by (induction cs arbitrary: s) (simp_all add: vpnClient_uid)

lemma vpnClient_calls_snoc:
  "vpnClient_calls d (cs @ [c]) s = vpnClient d (fst c) (snd c) (vpnClient_calls d cs s)"
  by (induction cs arbitrary: s) simp_all

lemma vpnClient_calls_clean:
  "\<forall>c \<in> set cs. good_call c \<Longrightarrow> own_clean d s \<Longrightarrow> own_clean d (vpnClient_calls d cs s)"
proof (induction cs arbitrary: s)
  case Nil
  then show ?case by simp
next
  case (Cons c cs)
  have "own_clean d (vpnClient d (fst c) (snd c) s)"
    using Cons.prems by (intro vpnClient_clean) (auto simp: good_call_def)
  then show ?case using Cons by simp
qed

lemma vpnClient_calls_last:
  assumes "\<forall>c \<in> set cs. good_call c" "cs \<noteq> []"
  shows "vpn_post d (uniqueId (fst s)) (snd (last cs)) (snd (vpnClient_calls d cs s))
       \<and> (own_clean d s \<longrightarrow>
            own_rules d (uniqueId (fst s)) (snd (vpnClient_calls d cs s))
              = expected_rules d (uniqueId (fst s)) (snd (last cs)))"
proof -
  from assms(2) obtain bs c where cs: "cs = bs @ [c]"
    by (metis rev_exhaust)
  have good: "\<And>x. fst c x" "truthy (vp_profileId (snd c))" "vp_state (snd c) \<noteq> St_other"
    and bs: "\<forall>b \<in> set bs. good_call b"
    using assms(1) by (auto simp: cs good_call_def)
  have "vpn_post d (uniqueId (fst (vpnClient_calls d bs s))) (snd c)
          (snd (vpnClient d (fst c) (snd c) (vpnClient_calls d bs s)))"
    by (rule vpnClient_post[OF good])
  moreover have "own_rules d (uniqueId (fst (vpnClient_calls d bs s)))
          (snd (vpnClient d (fst c) (snd c) (vpnClient_calls d bs s)))
        = expected_rules d (uniqueId (fst (vpnClient_calls d bs s))) (snd c)"
    if "own_clean d s"
    by (rule vpnClient_exact[OF good vpnClient_calls_clean[OF bs that]])
  ultimately show ?thesis
    by (simp add: cs vpnClient_calls_snoc vpnClient_calls_uid)
qed

lemma vpn_post_exclusive:
  "vpn_post d u pol w \<Longrightarrow> vp_profileId pol = Some p \<Longrightarrow>
     \<not> (active4 d u p \<in> set (rules w) \<and> neutral4 d u p \<in> set (rules w))
     \<and> \<not> (active6 d u p \<in> set (rules w) \<and> neutral6 d u p \<in> set (rules w))"
  by (cases "vp_state pol") (auto simp: vpn_post_def)

text \<open>
  Claim C1. In a sequence of \<open>vpnClient\<close> calls with non-empty profile ids and states
  among \<open>true\<close>, \<open>false\<close>, \<open>null\<close>, whose operations succeed, after each call (the
  \<open>n\<close>-th, for every \<open>n\<close>) state \<open>true\<close> has left the active rule present and the
  neutralized rule absent, \<open>null\<close> the neutralized rule present and the active rule
  absent, \<open>false\<close> both absent, for both families; so at most one variant is present
  per family. When the identity started with no rules but those of its recorded
  profile, the rules it owns after the call are exactly those the policy asks for.
\<close>

theorem vpn_rule_exclusivity:
  assumes "\<forall>c \<in> set cs. good_call c" and "0 < n" and "n \<le> length cs"
  shows "vpn_post d (uniqueId (fst s)) (snd (cs ! (n - 1))) (snd (vpnClient_calls d (take n cs) s))
       \<and> (\<forall>p. vp_profileId (snd (cs ! (n - 1))) = Some p \<longrightarrow>
            \<not> (active4 d (uniqueId (fst s)) p \<in> set (rules (snd (vpnClient_calls d (take n cs) s)))
               \<and> neutral4 d (uniqueId (fst s)) p \<in> set (rules (snd (vpnClient_calls d (take n cs) s))))
          \<and> \<not> (active6 d (uniqueId (fst s)) p \<in> set (rules (snd (vpnClient_calls d (take n cs) s)))
               \<and> neutral6 d (uniqueId (fst s)) p \<in> set (rules (snd (vpnClient_calls d (take n cs) s)))))
       \<and> (own_clean d s \<longrightarrow>
            own_rules d (uniqueId (fst s)) (snd (vpnClient_calls d (take n cs) s))
              = expected_rules d (uniqueId (fst s)) (snd (cs ! (n - 1))))"
proof -
  have ne: "take n cs \<noteq> []" using assms(2,3) by auto
  have all: "\<forall>c \<in> set (take n cs). good_call c"
    using assms(1) by (meson in_set_takeD)
  have l: "last (take n cs) = cs ! (n - 1)"
    using assms(2,3) ne by (simp add: last_conv_nth min_def)
  from vpnClient_calls_last[OF all ne, of d s] vpn_post_exclusive
  show ?thesis unfolding l by blast
qed

lemma all_ok_fun: "all_ok = (\<lambda>c. True)"
  by (rule ext) (simp add: all_ok_def)

theorem vpn_rule_exclusivity_witness:
  "list_all good_call calls0 \<and> (0::nat) < 2 \<and> 2 \<le> length calls0
   \<and> own_clean deps0 (identity0, world0)
   \<and> vpn_post deps0 ''peer1'' \<lparr>vp_state = St_null, vp_profileId = Some ''P2''\<rparr>
        (snd (vpnClient_calls deps0 calls0 (identity0, world0)))
   \<and> own_rules deps0 ''peer1'' (snd (vpnClient_calls deps0 calls0 (identity0, world0)))
        = {neutral4 deps0 ''peer1'' ''P2'', neutral6 deps0 ''peer1'' ''P2''}"
  using vpn_rule_exclusivity [of calls0 2 deps0 "(identity0, world0)"]
  by (simp add: calls0_def good_call_def all_ok_fun truthy_def own_clean_def own_rules_def
      world0_def identity0_def expected_rules_def)

lemma trace_effect: "trace (effect c w) = trace w"
proof (cases c)
  case (Iptables op r)
  then show ?thesis by (cases op) simp_all
qed (simp_all split: option.splits)

lemma trace_exec_catch: "trace (exec_catch ok c w) = trace w @ [c]"
  by (simp add: exec_catch_simps trace_effect)

lemma trace_exec_all: "trace (exec_all ok cs w) = trace w @ cs"
  unfolding exec_all_def by (induction cs arbitrary: w) (simp_all add: trace_exec_catch)

lemma trace_ensure: "\<exists>xs. trace (ensureCreateEnforcementEnv d ok u w) = trace w @ xs"
  by (simp add: ensureCreateEnforcementEnv_def Let_def trace_exec_catch scheduleRestartDNSService_def)

lemma trace_apply_state: "\<exists>xs. trace (apply_state d ok st u p w) = trace w @ xs"
  by (cases st) (simp_all add: apply_state_def trace_exec_all)

lemma trace_vpnClient:
  "\<exists>xs. trace (snd (vpnClient d ok pol s)) = trace (remove_old_rules d ok pol (fst s) (snd s)) @ xs"
proof (cases "vp_profileId pol")
  case None
  then show ?thesis by (simp add: vpnClient_def Let_def)
next
  case (Some p)
  show ?thesis
  proof (cases "p = [] \<or> \<not> ok (VpnProfileEnv p)")
    case True
    then show ?thesis
      using Some by (auto simp: vpnClient_def Let_def exec_def)
  next
    case False
    let ?w1 = "remove_old_rules d ok pol (fst s) (snd s)"
    let ?w2 = "exec_catch ok (VpnProfileEnv p) ?w1"
    let ?w3 = "ensureCreateEnforcementEnv d ok (uniqueId (fst s)) ?w2"
    from False have eq: "snd (vpnClient d ok pol s) = apply_state d ok (vp_state pol) (uniqueId (fst s)) p ?w3"
      using Some by (simp add: vpnClient_snd)
    obtain xs where xs: "trace ?w3 = trace ?w2 @ xs" using trace_ensure by blast
    obtain ys where ys: "trace (apply_state d ok (vp_state pol) (uniqueId (fst s)) p ?w3) = trace ?w3 @ ys"
      using trace_apply_state by blast
    show ?thesis unfolding eq ys xs by (simp add: trace_exec_catch)
  qed
qed

lemma in_rules_exec_catch:
  "r \<in> set (rules (exec_catch ok c w)) \<Longrightarrow>
   r \<in> set (rules w) \<or> (c = Iptables Append r \<and> ok c)"
  by (cases c) (auto simp: rules_exec_catch split: ipt_op.splits if_splits)

lemma in_rules_exec_all:
  "r \<in> set (rules (exec_all ok cs w)) \<Longrightarrow>
   r \<in> set (rules w) \<or> (Iptables Append r \<in> set cs \<and> ok (Iptables Append r))"
  unfolding exec_all_def
proof (induction cs arbitrary: w)
  case Nil
  then show ?case by simp
next
  case (Cons c cs)
  from Cons.prems have "r \<in> set (rules (fold (exec_catch ok) cs (exec_catch ok c w)))" by simp
  from Cons.IH[OF this] show ?case
    using in_rules_exec_catch[of r ok c w] by auto
qed

lemma old_rules_removed:
  assumes "r \<in> set [active4 d u old, active6 d u old, neutral4 d u old, neutral6 d u old]"
    and "ok (Iptables Delete r)"
  shows "r \<notin> set (rules (exec_all ok (old_rule_deletes d u old) w))"
  using assms by (auto simp: old_rule_deletes_def exec_all_def rules_exec_catch)

lemma in_rules_apply_state:
  assumes "r \<in> set (rules (apply_state d ok st u p w))"
  shows "r \<in> set (rules w)
     \<or> (ok (Iptables Append r)
        \<and> (st = St_true \<and> (r = active4 d u p \<or> r = active6 d u p)
           \<or> st = St_null \<and> (r = neutral4 d u p \<or> r = neutral6 d u p)))"
proof (cases st)
  case St_true
  then show ?thesis
    using assms in_rules_exec_all[of r ok "[Iptables Append (active4 d u p), Iptables Append (active6 d u p),
             Iptables Delete (neutral4 d u p), Iptables Delete (neutral6 d u p)]" w]
    by (auto simp: apply_state_def)
next
  case St_null
  then show ?thesis
    using assms in_rules_exec_all[of r ok "[Iptables Delete (active4 d u p), Iptables Delete (active6 d u p),
             Iptables Append (neutral4 d u p), Iptables Append (neutral6 d u p)]" w]
    by (auto simp: apply_state_def)
next
  case St_false
  then show ?thesis
    using assms in_rules_exec_all[of r ok "[Iptables Delete (active4 d u p), Iptables Delete (active6 d u p),
             Iptables Delete (neutral4 d u p), Iptables Delete (neutral6 d u p)]" w]
    by (auto simp: apply_state_def)
next
  case St_other
  then show ?thesis using assms by (simp add: apply_state_def)
qed

lemma in_rules_vpnClient:
  assumes "r \<in> set (rules (snd (vpnClient d ok pol s)))"
  shows "r \<in> set (rules (remove_old_rules d ok pol (fst s) (snd s)))
     \<or> (\<exists>p. vp_profileId pol = Some p \<and> p \<noteq> [] \<and> ok (VpnProfileEnv p)
            \<and> ok (Iptables Append r)
            \<and> (vp_state pol = St_true
                 \<and> (r = active4 d (uniqueId (fst s)) p \<or> r = active6 d (uniqueId (fst s)) p)
               \<or> vp_state pol = St_null
                 \<and> (r = neutral4 d (uniqueId (fst s)) p \<or> r = neutral6 d (uniqueId (fst s)) p)))"
proof (cases "vp_profileId pol")
  case None
  then show ?thesis using assms by (simp add: vpnClient_def Let_def)
next
  case (Some p)
  show ?thesis
  proof (cases "p = [] \<or> \<not> ok (VpnProfileEnv p)")
    case True
    have "rules (snd (vpnClient d ok pol s)) = rules (remove_old_rules d ok pol (fst s) (snd s))"
    proof (cases "p = []")
      case True
      then show ?thesis using Some by (simp add: vpnClient_def Let_def)
    next
      case False
      with True have "\<not> ok (VpnProfileEnv p)" by simp
      then show ?thesis using Some False by (simp add: vpnClient_def Let_def exec_def)
    qed
    then show ?thesis using assms by simp
  next
    case False
    let ?w1 = "remove_old_rules d ok pol (fst s) (snd s)"
    let ?w3 = "ensureCreateEnforcementEnv d ok (uniqueId (fst s)) (exec_catch ok (VpnProfileEnv p) ?w1)"
    from False have eq: "snd (vpnClient d ok pol s) = apply_state d ok (vp_state pol) (uniqueId (fst s)) p ?w3"
      using Some by (simp add: vpnClient_snd)
    have r3: "rules ?w3 = rules ?w1"
      by (simp add: rules_ensure rules_exec_catch)
    from assms have "r \<in> set (rules (apply_state d ok (vp_state pol) (uniqueId (fst s)) p ?w3))"
      unfolding eq .
    from in_rules_apply_state[OF this] show ?thesis
      using False Some by (auto simp: r3)
  qed
qed

text \<open>
  Claim C2. When the identity has a previous profile id and the requested one differs,
  the first four operations of the call delete the active and the neutralized rule of
  the previous profile for both families, so every insertion of the call comes after
  them; when these deletions succeed, none of the four rules is in the chain before
  the rest of the call runs. At the end of the call, a rule of the previous profile
  whose deletion succeeded is in the chain only if the call itself inserted it again
  as a rule of the requested profile: the neutralized rule does not mention the
  profile, so it is the same rule for both profiles and is inserted again when the
  requested state is \<open>null\<close>, and an active rule is the same only when both profiles
  have the same route set name. So the active rules of the previous profile are gone
  after the call when the route set names differ, and its neutralized rules are gone
  when the requested state is not \<open>null\<close>.
\<close>

theorem vpn_migration_guard:
  assumes "priv_profileId (fst s) = Some old" and "old \<noteq> []" and "vp_profileId pol \<noteq> Some old"
  shows "take 4 (issued (snd s) (snd (vpnClient d ok pol s)))
           = old_rule_deletes d (uniqueId (fst s)) old
       \<and> issued (snd s) (remove_old_rules d ok pol (fst s) (snd s))
           = old_rule_deletes d (uniqueId (fst s)) old
       \<and> (list_all ok (old_rule_deletes d (uniqueId (fst s)) old) \<longrightarrow>
            active4 d (uniqueId (fst s)) old \<notin> set (rules (remove_old_rules d ok pol (fst s) (snd s)))
          \<and> active6 d (uniqueId (fst s)) old \<notin> set (rules (remove_old_rules d ok pol (fst s) (snd s)))
          \<and> neutral4 d (uniqueId (fst s)) old \<notin> set (rules (remove_old_rules d ok pol (fst s) (snd s)))
          \<and> neutral6 d (uniqueId (fst s)) old \<notin> set (rules (remove_old_rules d ok pol (fst s) (snd s))))
       \<and> (\<forall>r \<in> set [active4 d (uniqueId (fst s)) old, active6 d (uniqueId (fst s)) old,
                     neutral4 d (uniqueId (fst s)) old, neutral6 d (uniqueId (fst s)) old].
            ok (Iptables Delete r) \<longrightarrow>
            r \<in> set (rules (snd (vpnClient d ok pol s))) \<longrightarrow>
            (\<exists>p. vp_profileId pol = Some p \<and> p \<noteq> [] \<and> ok (VpnProfileEnv p)
                 \<and> ok (Iptables Append r)
                 \<and> (vp_state pol = St_true
                      \<and> (r = active4 d (uniqueId (fst s)) p \<or> r = active6 d (uniqueId (fst s)) p)
                    \<or> vp_state pol = St_null
                      \<and> (r = neutral4 d (uniqueId (fst s)) p \<or> r = neutral6 d (uniqueId (fst s)) p))))
       \<and> (list_all ok (old_rule_deletes d (uniqueId (fst s)) old) \<longrightarrow>
            (case vp_profileId pol of None \<Rightarrow> True
             | Some p \<Rightarrow> getRouteIpsetName d p \<noteq> getRouteIpsetName d old) \<longrightarrow>
            active4 d (uniqueId (fst s)) old \<notin> set (rules (snd (vpnClient d ok pol s)))
          \<and> active6 d (uniqueId (fst s)) old \<notin> set (rules (snd (vpnClient d ok pol s))))
       \<and> (list_all ok (old_rule_deletes d (uniqueId (fst s)) old) \<longrightarrow>
            vp_state pol \<noteq> St_null \<longrightarrow>
            neutral4 d (uniqueId (fst s)) old \<notin> set (rules (snd (vpnClient d ok pol s)))
          \<and> neutral6 d (uniqueId (fst s)) old \<notin> set (rules (snd (vpnClient d ok pol s))))"
proof -
  let ?u = "uniqueId (fst s)"
  let ?w1 = "remove_old_rules d ok pol (fst s) (snd s)"
  let ?wf = "snd (vpnClient d ok pol s)"
  let ?new = "\<lambda>r. \<exists>p. vp_profileId pol = Some p \<and> p \<noteq> [] \<and> ok (VpnProfileEnv p)
                 \<and> ok (Iptables Append r)
                 \<and> (vp_state pol = St_true \<and> (r = active4 d ?u p \<or> r = active6 d ?u p)
                    \<or> vp_state pol = St_null \<and> (r = neutral4 d ?u p \<or> r = neutral6 d ?u p))"
  have w1: "?w1 = exec_all ok (old_rule_deletes d ?u old) (snd s)"
    using assms by (simp add: remove_old_rules_def truthy_def old_rule_deletes_def)
  have t1: "trace ?w1 = trace (snd s) @ old_rule_deletes d ?u old"
    unfolding w1 by (rule trace_exec_all)
  obtain xs where "trace ?wf = trace ?w1 @ xs"
    using trace_vpnClient by blast
  then have "issued (snd s) ?wf = old_rule_deletes d ?u old @ xs"
    by (simp add: issued_def t1)
  then have a: "take 4 (issued (snd s) ?wf) = old_rule_deletes d ?u old"
    by (simp add: old_rule_deletes_def)
  have b: "issued (snd s) ?w1 = old_rule_deletes d ?u old"
    by (simp add: issued_def t1)
  have c: "active4 d ?u old \<notin> set (rules ?w1) \<and> active6 d ?u old \<notin> set (rules ?w1)
           \<and> neutral4 d ?u old \<notin> set (rules ?w1) \<and> neutral6 d ?u old \<notin> set (rules ?w1)"
    if "list_all ok (old_rule_deletes d ?u old)"
    using that unfolding w1
    by (simp add: old_rule_deletes_def exec_all_def rules_exec_catch)
  have e: "?new r"
    if "r \<in> set [active4 d ?u old, active6 d ?u old, neutral4 d ?u old, neutral6 d ?u old]"
      and "ok (Iptables Delete r)" and "r \<in> set (rules ?wf)" for r
  proof -
    have "r \<notin> set (rules ?w1)"
      unfolding w1 using that(1,2) by (rule old_rules_removed)
    with in_rules_vpnClient[OF that(3)] show ?thesis by blast
  qed
  have f: "active4 d ?u old \<notin> set (rules ?wf) \<and> active6 d ?u old \<notin> set (rules ?wf)"
    if ok: "list_all ok (old_rule_deletes d ?u old)"
      and nm: "case vp_profileId pol of None \<Rightarrow> True
               | Some p \<Rightarrow> getRouteIpsetName d p \<noteq> getRouteIpsetName d old"
  proof -
    have n4: "\<not> ?new (active4 d ?u old)"
    proof
      assume "?new (active4 d ?u old)"
      then obtain p where p: "vp_profileId pol = Some p"
        and eq: "active4 d ?u old = active4 d ?u p \<or> active4 d ?u old = active6 d ?u p
                 \<or> active4 d ?u old = neutral4 d ?u p \<or> active4 d ?u old = neutral6 d ?u p"
        by blast
      from eq have "active4 d ?u old = active4 d ?u p" by (simp add: rules_distinct)
      then have "r_jump (active4 d ?u old) = r_jump (active4 d ?u p)" by simp
      then have "getRouteIpsetName d old = getRouteIpsetName d p" by (simp add: rule_fields)
      with nm p show False by simp
    qed
    have n6: "\<not> ?new (active6 d ?u old)"
    proof
      assume "?new (active6 d ?u old)"
      then obtain p where p: "vp_profileId pol = Some p"
        and eq: "active6 d ?u old = active4 d ?u p \<or> active6 d ?u old = active6 d ?u p
                 \<or> active6 d ?u old = neutral4 d ?u p \<or> active6 d ?u old = neutral6 d ?u p"
        by blast
      from eq have "active6 d ?u old = active6 d ?u p"
        by (simp add: rules_distinct rules_distinct[symmetric])
      then have "r_jump (active6 d ?u old) = r_jump (active6 d ?u p)" by simp
      then have "getRouteIpsetName d old = getRouteIpsetName d p" by (simp add: rule_fields)
      with nm p show False by simp
    qed
    from ok have "ok (Iptables Delete (active4 d ?u old))" "ok (Iptables Delete (active6 d ?u old))"
      by (simp_all add: old_rule_deletes_def)
    with e[of "active4 d ?u old"] e[of "active6 d ?u old"] n4 n6 show ?thesis
      by auto
  qed
  have g: "neutral4 d ?u old \<notin> set (rules ?wf) \<and> neutral6 d ?u old \<notin> set (rules ?wf)"
    if ok: "list_all ok (old_rule_deletes d ?u old)" and st: "vp_state pol \<noteq> St_null"
  proof -
    have n4: "\<not> ?new (neutral4 d ?u old)"
      using st by (auto simp: rules_distinct rules_distinct[symmetric])
    have n6: "\<not> ?new (neutral6 d ?u old)"
      using st by (auto simp: rules_distinct rules_distinct[symmetric])
    from ok have "ok (Iptables Delete (neutral4 d ?u old))" "ok (Iptables Delete (neutral6 d ?u old))"
      by (simp_all add: old_rule_deletes_def)
    with e[of "neutral4 d ?u old"] e[of "neutral6 d ?u old"] n4 n6 show ?thesis
      by auto
  qed
  from e have e': "\<forall>r \<in> set [active4 d ?u old, active6 d ?u old, neutral4 d ?u old, neutral6 d ?u old].
            ok (Iptables Delete r) \<longrightarrow> r \<in> set (rules ?wf) \<longrightarrow> ?new r"
    by blast
  show ?thesis
    apply (intro conjI)
         apply (rule a)
        apply (rule b)
       apply (use c in blast)
      apply (rule e')
     apply (use f in blast)
    apply (use g in blast)
    done
qed

theorem vpn_migration_guard_witness:
  "priv_profileId (identity0\<lparr>priv_profileId := Some ''P1''\<rparr>) = Some ''P1'' \<and> ''P1'' \<noteq> []
   \<and> vp_profileId \<lparr>vp_state = St_true, vp_profileId = Some ''P2''\<rparr> \<noteq> Some ''P1''
   \<and> list_all all_ok (old_rule_deletes deps0 ''peer1'' ''P1'')
   \<and> active4 deps0 ''peer1'' ''P1'' \<in> set (rules world_p1)
   \<and> neutral4 deps0 ''peer1'' ''P1'' \<in> set (rules world_p1)
   \<and> take 4 (issued world_p1
        (snd (vpnClient deps0 all_ok \<lparr>vp_state = St_true, vp_profileId = Some ''P2''\<rparr>
               (identity0\<lparr>priv_profileId := Some ''P1''\<rparr>, world_p1))))
       = old_rule_deletes deps0 ''peer1'' ''P1''
   \<and> active4 deps0 ''peer1'' ''P1'' \<notin> set (rules (remove_old_rules deps0 all_ok
         \<lparr>vp_state = St_true, vp_profileId = Some ''P2''\<rparr>
         (identity0\<lparr>priv_profileId := Some ''P1''\<rparr>) world_p1))
   \<and> active4 deps0 ''peer1'' ''P1'' \<notin> set (rules
        (snd (vpnClient deps0 all_ok \<lparr>vp_state = St_true, vp_profileId = Some ''P2''\<rparr>
               (identity0\<lparr>priv_profileId := Some ''P1''\<rparr>, world_p1))))
   \<and> active6 deps0 ''peer1'' ''P1'' \<notin> set (rules
        (snd (vpnClient deps0 all_ok \<lparr>vp_state = St_true, vp_profileId = Some ''P2''\<rparr>
               (identity0\<lparr>priv_profileId := Some ''P1''\<rparr>, world_p1))))
   \<and> neutral4 deps0 ''peer1'' ''P1'' \<notin> set (rules
        (snd (vpnClient deps0 all_ok \<lparr>vp_state = St_true, vp_profileId = Some ''P2''\<rparr>
               (identity0\<lparr>priv_profileId := Some ''P1''\<rparr>, world_p1))))"
  using vpn_migration_guard [of "(identity0\<lparr>priv_profileId := Some ''P1''\<rparr>, world_p1)" "''P1''"
      "\<lparr>vp_state = St_true, vp_profileId = Some ''P2''\<rparr>" deps0 all_ok]
  by (simp add: identity0_def all_ok_fun old_rule_deletes_def world_p1_def world0_def deps0_def)

section \<open>updateIPs\<close>

lemma heap_effect: "heap (effect c w) = heap w"
proof (cases c)
  case (Iptables op r)
  then show ?thesis by (cases op) simp_all
qed (simp_all split: option.splits)

lemma heap_exec_catch: "heap (exec_catch ok c w) = heap w"
  by (simp add: exec_catch_simps heap_effect)

lemma heap_exec: "heap (snd (exec ok c w)) = heap w"
  by (simp add: exec_def heap_effect)

lemma heap_flush_and_populate: "heap (flush_and_populate d ok u ips w) = heap w"
  by (simp add: flush_and_populate_def Let_def heap_exec_catch)

lemma heap_reconcile: "heap (snd (reconcile_registry ok key ips w)) = heap w"
  by (simp add: reconcile_registry_def Let_def exec_def heap_effect split: prod.splits)

lemma sort_sort: "sort (sort xs) = sort (xs :: string list)"
  by (simp add: sorted_sort_id)

lemma ips_not_changed_None:
  "priv_ips idn = None \<Longrightarrow> ips_not_changed b idn w = (False, w)"
  by (simp add: ips_not_changed_def)

lemma ips_not_changed_Some:
  "priv_ips idn = Some p \<Longrightarrow>
   ips_not_changed b idn w =
     (sort (heap w b) = sort (heap w p),
      w\<lparr>heap := (heap w)(b := sort (heap w b), p := sort (heap w p))\<rparr>)"
  by (auto simp: ips_not_changed_def sort_in_place_def Let_def sort_sort)

lemma updateIPs_skip:
  "fst (ips_not_changed b idn w) \<Longrightarrow>
   updateIPs d ok b (idn, w) = (Returned, idn, snd (ips_not_changed b idn w))"
  by (simp add: updateIPs_def case_prod_beta)

lemma updateIPs_go:
  "\<not> fst (ips_not_changed b idn w) \<Longrightarrow>
   updateIPs d ok b (idn, w) =
     (let w0 = snd (ips_not_changed b idn w);
          w1 = flush_and_populate d ok (uniqueId idn) (heap w0 b) w0;
          rw = reconcile_registry ok (getRedisSetName (namespace d) (uniqueId idn)) (heap w0 b) w1
      in (fst rw, if fst rw = Returned then idn\<lparr>priv_ips := Some b\<rparr> else idn, snd rw))"
  by (simp add: updateIPs_def Let_def case_prod_beta heap_flush_and_populate split: outcome.splits)

lemma heap_updateIPs:
  "heap (snd (snd (updateIPs d ok b (idn, w)))) = heap (snd (ips_not_changed b idn w))"
  by (cases "fst (ips_not_changed b idn w)")
     (simp_all add: updateIPs_skip updateIPs_go Let_def heap_reconcile heap_flush_and_populate)

lemma redis_flush_and_populate_early: "redis (flush_and_populate d ok u ips w) = redis w"
  by (simp add: flush_and_populate_def Let_def exec_catch_simps split: option.splits)

lemma reconcile_ok:
  assumes "ok (RedisSmembers key)" "\<And>xs. ok (RedisSrem key xs)" "\<And>xs. ok (RedisSadd key xs)"
  shows "fst (reconcile_registry ok key ips w) = Returned"
  using assms by (simp add: reconcile_registry_def Let_def exec_def)

lemma reconcile_smembers_fails:
  "\<not> ok (RedisSmembers key) \<Longrightarrow>
   reconcile_registry ok key ips w = (Threw, w\<lparr>trace := trace w @ [RedisSmembers key]\<rparr>)"
  by (simp add: reconcile_registry_def exec_def)

lemma updateIPs_outcome:
  "fst (updateIPs d ok b (idn, w)) = Threw \<Longrightarrow> fst (snd (updateIPs d ok b (idn, w))) = idn"
  by (cases "fst (ips_not_changed b idn w)") (auto simp: updateIPs_skip updateIPs_go Let_def)

lemma trace_flush_and_populate:
  "trace (flush_and_populate d ok u ips w) =
     trace w @ [IpsetFlush (getEnforcementIPsetName (namespace d) u 4),
                IpsetFlush (getEnforcementIPsetName (namespace d) u 6),
                IpsetBatchAdd (populate_cmds d u ips)]"
  by (simp add: flush_and_populate_def Let_def trace_exec_catch)

lemma trace_exec: "trace (snd (exec ok c w)) = trace w @ [c]"
  by (simp add: exec_def trace_effect)

lemma trace_reconcile:
  "\<exists>xs. trace (snd (reconcile_registry ok key ips w)) = trace w @ xs"
  by (auto simp: reconcile_registry_def Let_def exec_def trace_effect)

lemma reconcile_issued:
  "list_all is_registry_op (issued w (snd (reconcile_registry ok key ips w)))
   \<and> fst (reconcile_registry ok key ips w)
       = (if list_all ok (issued w (snd (reconcile_registry ok key ips w))) then Returned else Threw)
   \<and> (fst (reconcile_registry ok key ips w) = Threw \<longrightarrow>
        issued w (snd (reconcile_registry ok key ips w)) \<noteq> []
        \<and> \<not> ok (last (issued w (snd (reconcile_registry ok key ips w)))))"
  by (auto simp: reconcile_registry_def Let_def exec_def issued_def trace_effect)

lemma updateIPs_go_issued:
  assumes "\<not> fst (ips_not_changed b idn w)"
  shows "filter is_registry_op (issued w (snd (snd (updateIPs d ok b (idn, w)))))
           = issued (flush_and_populate d ok (uniqueId idn) (heap (snd (ips_not_changed b idn w)) b)
                      (snd (ips_not_changed b idn w)))
               (snd (reconcile_registry ok (getRedisSetName (namespace d) (uniqueId idn))
                  (heap (snd (ips_not_changed b idn w)) b)
                  (flush_and_populate d ok (uniqueId idn) (heap (snd (ips_not_changed b idn w)) b)
                      (snd (ips_not_changed b idn w)))))
       \<and> (issued (flush_and_populate d ok (uniqueId idn) (heap (snd (ips_not_changed b idn w)) b)
                      (snd (ips_not_changed b idn w)))
               (snd (reconcile_registry ok (getRedisSetName (namespace d) (uniqueId idn))
                  (heap (snd (ips_not_changed b idn w)) b)
                  (flush_and_populate d ok (uniqueId idn) (heap (snd (ips_not_changed b idn w)) b)
                      (snd (ips_not_changed b idn w))))) \<noteq> [] \<longrightarrow>
           last (issued w (snd (snd (updateIPs d ok b (idn, w)))))
             = last (issued (flush_and_populate d ok (uniqueId idn) (heap (snd (ips_not_changed b idn w)) b)
                      (snd (ips_not_changed b idn w)))
               (snd (reconcile_registry ok (getRedisSetName (namespace d) (uniqueId idn))
                  (heap (snd (ips_not_changed b idn w)) b)
                  (flush_and_populate d ok (uniqueId idn) (heap (snd (ips_not_changed b idn w)) b)
                      (snd (ips_not_changed b idn w)))))))"
proof -
  let ?w0 = "snd (ips_not_changed b idn w)"
  let ?w1 = "flush_and_populate d ok (uniqueId idn) (heap ?w0 b) ?w0"
  let ?rw = "reconcile_registry ok (getRedisSetName (namespace d) (uniqueId idn)) (heap ?w0 b) ?w1"
  have t0: "trace ?w0 = trace w"
    by (cases "priv_ips idn") (simp_all add: ips_not_changed_None ips_not_changed_Some)
  obtain xs where xs: "trace (snd ?rw) = trace ?w1 @ xs" using trace_reconcile by blast
  have reg: "list_all is_registry_op xs"
    using reconcile_issued[of ?w1 ok "getRedisSetName (namespace d) (uniqueId idn)" "heap ?w0 b"]
    by (simp add: issued_def xs)
  have w': "snd (snd (updateIPs d ok b (idn, w))) = snd ?rw"
    by (simp add: updateIPs_go[OF assms] Let_def)
  have i1: "issued ?w1 (snd ?rw) = xs" by (simp add: issued_def xs)
  have i2: "issued w (snd ?rw) =
      [IpsetFlush (getEnforcementIPsetName (namespace d) (uniqueId idn) 4),
       IpsetFlush (getEnforcementIPsetName (namespace d) (uniqueId idn) 6),
       IpsetBatchAdd (populate_cmds d (uniqueId idn) (heap ?w0 b))] @ xs"
    by (simp add: issued_def xs trace_flush_and_populate t0)
  have f: "filter is_registry_op xs = xs"
    using reg by (simp add: list_all_iff)
  show ?thesis
    unfolding w' i1 i2 by (simp add: f)
qed

text \<open>
  Claim C7, as amended. A call of \<open>updateIPs\<close> that does not take the no-change
  return sets \<open>_ips\<close> to the new list when the registry operations succeed, whatever
  happened to the flush and set-population commands. It is rejected exactly when a
  registry operation it issued failed: that operation is then the last one the call
  issued, and \<open>_ips\<close> keeps its previous value.
\<close>

theorem updateIPs_sets_ips:
  assumes "\<not> fst (ips_not_changed b idn w)"
  shows "((\<forall>k. ok (RedisSmembers k)) \<and> (\<forall>k xs. ok (RedisSrem k xs)) \<and> (\<forall>k xs. ok (RedisSadd k xs))
           \<longrightarrow> fst (updateIPs d ok b (idn, w)) = Returned
               \<and> priv_ips (fst (snd (updateIPs d ok b (idn, w)))) = Some b)
       \<and> (fst (updateIPs d ok b (idn, w)) = Threw
           \<longrightarrow> priv_ips (fst (snd (updateIPs d ok b (idn, w)))) = priv_ips idn)
       \<and> fst (updateIPs d ok b (idn, w))
           = (if list_all ok (filter is_registry_op (issued w (snd (snd (updateIPs d ok b (idn, w))))))
              then Returned else Threw)
       \<and> priv_ips (fst (snd (updateIPs d ok b (idn, w))))
           = (if list_all ok (filter is_registry_op (issued w (snd (snd (updateIPs d ok b (idn, w))))))
              then Some b else priv_ips idn)
       \<and> (fst (updateIPs d ok b (idn, w)) = Threw \<longrightarrow>
            issued w (snd (snd (updateIPs d ok b (idn, w)))) \<noteq> []
            \<and> is_registry_op (last (issued w (snd (snd (updateIPs d ok b (idn, w))))))
            \<and> \<not> ok (last (issued w (snd (snd (updateIPs d ok b (idn, w)))))))"
proof -
  let ?r = "updateIPs d ok b (idn, w)"
  let ?w0 = "snd (ips_not_changed b idn w)"
  let ?w1 = "flush_and_populate d ok (uniqueId idn) (heap ?w0 b) ?w0"
  let ?rw = "reconcile_registry ok (getRedisSetName (namespace d) (uniqueId idn)) (heap ?w0 b) ?w1"
  note gi = updateIPs_go_issued[OF assms, of d ok]
  note ri = reconcile_issued[of ?w1 ok "getRedisSetName (namespace d) (uniqueId idn)" "heap ?w0 b"]
  have up: "?r = (fst ?rw, if fst ?rw = Returned then idn\<lparr>priv_ips := Some b\<rparr> else idn, snd ?rw)"
    using updateIPs_go[OF assms, of d ok] by (simp add: Let_def)
  have 1: "fst ?r = Returned \<and> priv_ips (fst (snd ?r)) = Some b"
    if "(\<forall>k. ok (RedisSmembers k)) \<and> (\<forall>k xs. ok (RedisSrem k xs)) \<and> (\<forall>k xs. ok (RedisSadd k xs))"
    using that assms by (simp add: updateIPs_go Let_def reconcile_ok)
  have 2: "priv_ips (fst (snd ?r)) = priv_ips idn" if "fst ?r = Threw"
    using that by (simp add: updateIPs_outcome)
  have 3: "fst ?r = (if list_all ok (filter is_registry_op (issued w (snd (snd ?r)))) then Returned else Threw)"
    using gi ri by (simp add: up)
  have 4: "priv_ips (fst (snd ?r))
      = (if list_all ok (filter is_registry_op (issued w (snd (snd ?r)))) then Some b else priv_ips idn)"
    using 3 by (auto simp: up split: if_splits)
  have 5: "issued w (snd (snd ?r)) \<noteq> [] \<and> is_registry_op (last (issued w (snd (snd ?r))))
      \<and> \<not> ok (last (issued w (snd (snd ?r))))" if t: "fst ?r = Threw"
  proof -
    from t have t': "fst ?rw = Threw" by (simp add: up)
    with ri have ne: "issued ?w1 (snd ?rw) \<noteq> []" and no: "\<not> ok (last (issued ?w1 (snd ?rw)))"
      by blast+
    from ri ne have reg: "is_registry_op (last (issued ?w1 (snd ?rw)))"
      by (simp add: list_all_iff)
    from gi ne have l: "last (issued w (snd (snd ?r))) = last (issued ?w1 (snd ?rw))" by blast
    from gi ne have "filter is_registry_op (issued w (snd (snd ?r))) \<noteq> []" by simp
    then have "issued w (snd (snd ?r)) \<noteq> []" by auto
    then show ?thesis using l reg no by simp
  qed
  show ?thesis using 1 2 3 4 5 by blast
qed

lemma sadd_down_run:
  "fst (updateIPs deps0 sadd_down 5 (identity0, world1)) = Threw
   \<and> last (issued world1 (snd (snd (updateIPs deps0 sadd_down 5 (identity0, world1)))))
       = RedisSadd ''wg:addresses:peer1'' [''10.0.0.2'', ''10.0.0.1'']"
proof -
  let ?ips = "[''10.0.0.2'', ''10.0.0.1'']"
  let ?w1 = "flush_and_populate deps0 sadd_down ''peer1'' ?ips world1"
  let ?rw = "reconcile_registry sadd_down ''wg:addresses:peer1'' ?ips ?w1"
  have n: "\<not> fst (ips_not_changed 5 identity0 world1)"
    by (simp add: ips_not_changed_None identity0_def)
  have inc: "snd (ips_not_changed 5 identity0 world1) = world1"
    by (simp add: ips_not_changed_None identity0_def)
  have h: "heap world1 5 = ?ips"
    by (simp add: world1_def world0_def)
  have st: "strip_host_suffix ''10.0.0.2'' = ''10.0.0.2''" "strip_host_suffix ''10.0.0.1'' = ''10.0.0.1''"
    by (simp_all add: strip_host_suffix_def endsWith_def)
  have k: "getRedisSetName (namespace deps0) (uniqueId identity0) = ''wg:addresses:peer1''"
    by (simp add: getRedisSetName_def deps0_def identity0_def)
  have u: "uniqueId identity0 = ''peer1''" by (simp add: identity0_def)
  have k2: "getRedisSetName (namespace deps0) ''peer1'' = ''wg:addresses:peer1''"
    by (simp add: getRedisSetName_def deps0_def)
  have r: "redis ?w1 = (\<lambda>k. [])"
    by (simp add: redis_flush_and_populate_early world1_def world0_def)
  have up: "updateIPs deps0 sadd_down 5 (identity0, world1) =
      (fst ?rw, if fst ?rw = Returned then identity0\<lparr>priv_ips := Some 5\<rparr> else identity0, snd ?rw)"
    by (simp add: updateIPs_go[OF n] inc h k2 u Let_def)
  have rec: "fst ?rw = Threw"
    "trace (snd ?rw) = trace ?w1 @ [RedisSmembers ''wg:addresses:peer1'',
        RedisSadd ''wg:addresses:peer1'' ?ips]"
    by (simp_all add: reconcile_registry_def exec_def Let_def r st)
  have "issued world1 (snd ?rw) =
      [IpsetFlush (getEnforcementIPsetName (namespace deps0) ''peer1'' 4),
       IpsetFlush (getEnforcementIPsetName (namespace deps0) ''peer1'' 6),
       IpsetBatchAdd (populate_cmds deps0 ''peer1'' ?ips),
       RedisSmembers ''wg:addresses:peer1'', RedisSadd ''wg:addresses:peer1'' ?ips]"
    by (simp add: issued_def rec(2) trace_flush_and_populate)
  then show ?thesis
    unfolding up by (simp add: rec(1))
qed

theorem updateIPs_sets_ips_witness:
  "\<not> fst (ips_not_changed 5 identity0 world1)
   \<and> \<not> ipset_down (IpsetFlush (getEnforcementIPsetName ''wg'' ''peer1'' 4))
   \<and> \<not> ipset_down (IpsetBatchAdd (populate_cmds deps0 ''peer1'' (heap world1 5)))
   \<and> fst (updateIPs deps0 ipset_down 5 (identity0, world1)) = Returned
   \<and> priv_ips (fst (snd (updateIPs deps0 ipset_down 5 (identity0, world1)))) = Some 5
   \<and> fst (updateIPs deps0 sadd_down 5 (identity0, world1)) = Threw
   \<and> last (issued world1 (snd (snd (updateIPs deps0 sadd_down 5 (identity0, world1)))))
       = RedisSadd ''wg:addresses:peer1'' [''10.0.0.2'', ''10.0.0.1'']
   \<and> priv_ips (fst (snd (updateIPs deps0 sadd_down 5 (identity0, world1)))) = None"
proof -
  have n: "\<not> fst (ips_not_changed 5 identity0 world1)"
    by (simp add: ips_not_changed_None identity0_def)
  have p0: "priv_ips identity0 = None" by (simp add: identity0_def)
  have 1: "fst (updateIPs deps0 ipset_down 5 (identity0, world1)) = Returned
      \<and> priv_ips (fst (snd (updateIPs deps0 ipset_down 5 (identity0, world1)))) = Some 5"
    using updateIPs_sets_ips [OF n, of ipset_down deps0] by simp
  have 2: "priv_ips (fst (snd (updateIPs deps0 sadd_down 5 (identity0, world1)))) = None"
    using updateIPs_sets_ips [OF n, of sadd_down deps0] sadd_down_run p0 by simp
  show ?thesis using n 1 2 sadd_down_run by simp
qed

text \<open>With the registry out of reach the call is rejected at its first registry
  operation and \<open>_ips\<close> is not set.\<close>

theorem updateIPs_registry_failure_counterexample:
  "\<not> fst (ips_not_changed 5 identity0 world1)
   \<and> fst (updateIPs deps0 redis_down 5 (identity0, world1)) = Threw
   \<and> priv_ips (fst (snd (updateIPs deps0 redis_down 5 (identity0, world1)))) \<noteq> Some 5"
  by (simp add: updateIPs_go Let_def ips_not_changed_None identity0_def reconcile_smembers_fails)

text \<open>
  Claim C10. \<open>updateIPs\<close> stores the address of the caller's array itself; when a
  previous list exists the argument array is sorted in place (and nothing is sorted
  when none exists); \<open>getIPs\<close> then returns that same reference, and it returns an
  empty array for an identity on which \<open>updateIPs\<close> has never completed.
\<close>

theorem updateIPs_keeps_reference:
  "(\<forall>p. priv_ips idn = Some p \<longrightarrow>
       heap (snd (snd (updateIPs d ok b (idn, w)))) b = sort (heap w b))
   \<and> (priv_ips idn = None \<longrightarrow> heap (snd (snd (updateIPs d ok b (idn, w)))) = heap w)
   \<and> (fst (updateIPs d ok b (idn, w)) = Returned \<and> \<not> fst (ips_not_changed b idn w) \<longrightarrow>
        priv_ips (fst (snd (updateIPs d ok b (idn, w)))) = Some b
        \<and> getIPs (fst (snd (updateIPs d ok b (idn, w)))) = Ref b)
   \<and> (priv_ips idn = None \<and> fst (updateIPs d ok b (idn, w)) = Threw \<longrightarrow>
        getIPs (fst (snd (updateIPs d ok b (idn, w)))) = NewArray [])
   \<and> (priv_ips idn = None \<longrightarrow> getIPs idn = NewArray [])"
proof -
  have 1: "heap (snd (snd (updateIPs d ok b (idn, w)))) b = sort (heap w b)" if "priv_ips idn = Some p" for p
    unfolding heap_updateIPs ips_not_changed_Some[OF that] by simp
  have 2: "heap (snd (snd (updateIPs d ok b (idn, w)))) = heap w" if "priv_ips idn = None"
    unfolding heap_updateIPs ips_not_changed_None[OF that] by simp
  have 3: "priv_ips (fst (snd (updateIPs d ok b (idn, w)))) = Some b"
    if "fst (updateIPs d ok b (idn, w)) = Returned" "\<not> fst (ips_not_changed b idn w)"
    using that by (simp add: updateIPs_go Let_def)
  have 4: "getIPs (fst (snd (updateIPs d ok b (idn, w)))) = NewArray []"
    if "priv_ips idn = None" "fst (updateIPs d ok b (idn, w)) = Threw"
    using that by (simp add: updateIPs_outcome getIPs_def)
  show ?thesis using 1 2 3 4 by (auto simp: getIPs_def)
qed

theorem updateIPs_keeps_reference_witness:
  "priv_ips (identity0\<lparr>priv_ips := Some 5\<rparr>) = Some 5
   \<and> heap world1 7 = [''fd00::2'', ''10.0.0.9/32'']
   \<and> heap (snd (snd (updateIPs deps0 all_ok 7 (identity0\<lparr>priv_ips := Some 5\<rparr>, world1)))) 7
       = [''10.0.0.9/32'', ''fd00::2'']
   \<and> fst (updateIPs deps0 all_ok 7 (identity0\<lparr>priv_ips := Some 5\<rparr>, world1)) = Returned
   \<and> \<not> fst (ips_not_changed 7 (identity0\<lparr>priv_ips := Some 5\<rparr>) world1)
   \<and> getIPs (fst (snd (updateIPs deps0 all_ok 7 (identity0\<lparr>priv_ips := Some 5\<rparr>, world1)))) = Ref 7
   \<and> getIPs identity0 = NewArray []"
proof -
  have n: "\<not> fst (ips_not_changed 7 (identity0\<lparr>priv_ips := Some 5\<rparr>) world1)"
    by (simp add: ips_not_changed_Some world1_def world0_def)
  have r: "fst (updateIPs deps0 all_ok 7 (identity0\<lparr>priv_ips := Some 5\<rparr>, world1)) = Returned"
    by (simp add: updateIPs_go[OF n] Let_def reconcile_ok all_ok_def)
  have h: "heap world1 7 = [''fd00::2'', ''10.0.0.9/32'']"
    by (simp add: world1_def world0_def)
  have srt: "sort [''fd00::2'', ''10.0.0.9/32''] = [''10.0.0.9/32'', ''fd00::2'']"
    by simp
  have p: "priv_ips (identity0\<lparr>priv_ips := Some 5\<rparr>) = Some 5"
    by simp
  have g: "getIPs identity0 = NewArray []"
    by (simp add: getIPs_def identity0_def)
  show ?thesis
    using updateIPs_keeps_reference [of "identity0\<lparr>priv_ips := Some 5\<rparr>" deps0 all_ok 7 world1] n r
    by (simp only: p h srt g simp_thms)
qed

section \<open>Convergence of updateIPs\<close>

lemma endsWith_set: "endsWith s suf \<Longrightarrow> set suf \<subseteq> set s"
  unfolding endsWith_def by (metis set_drop_subset)

lemma no_slash_split: "CHR ''/'' \<notin> set (split_slash_0 s)"
  unfolding split_slash_0_def by (auto dest: set_takeWhileD)

lemma strip_idem: "strip_host_suffix (strip_host_suffix x) = strip_host_suffix x"
proof (cases "endsWith x ''/32'' \<or> endsWith x ''/128''")
  case True
  then have y: "strip_host_suffix x = split_slash_0 x" by (simp add: strip_host_suffix_def)
  have "\<not> endsWith (split_slash_0 x) ''/32''" "\<not> endsWith (split_slash_0 x) ''/128''"
    using no_slash_split[of x] by (auto dest!: endsWith_set)
  then show ?thesis unfolding y by (simp add: strip_host_suffix_def)
next
  case False
  then show ?thesis by (simp add: strip_host_suffix_def)
qed

lemma names_differ:
  "getEnforcementIPsetName ns u 4 \<noteq> getEnforcementIPsetName ns u 6"
  by (simp add: getEnforcementIPsetName_def)

lemma populate_cmds_4:
  "(getEnforcementIPsetName (namespace d) u 4, ip) \<in> set (populate_cmds d u ips)
     \<longleftrightarrow> ip \<in> valid_v4 d ips"
  using names_differ[of "namespace d" u]
  by (auto simp: populate_cmds_def valid_v4_def split: if_splits)

lemma populate_cmds_6:
  "(getEnforcementIPsetName (namespace d) u 6, ip) \<in> set (populate_cmds d u ips)
     \<longleftrightarrow> ip \<in> valid_v6 d ips"
  using names_differ[of "namespace d" u]
  by (auto simp: populate_cmds_def valid_v6_def split: if_splits)

lemma add_member_step:
  assumes "m n = Some ys"
  shows "\<exists>ys'. add_member e m n = Some ys'
           \<and> set ys' = set ys \<union> (if fst e = n then {snd e} else {})"
proof (cases "fst e = n")
  case True
  then show ?thesis using assms by (simp add: add_member_def)
next
  case False
  then show ?thesis using assms by (cases "m (fst e)") (simp_all add: add_member_def)
qed

lemma fold_add_member:
  "m n = Some ys \<Longrightarrow>
   \<exists>zs. fold add_member es m n = Some zs \<and> set zs = set ys \<union> {ip. (n, ip) \<in> set es}"
proof (induction es arbitrary: m ys)
  case Nil
  then show ?case by simp
next
  case (Cons e es)
  obtain ys' where a: "add_member e m n = Some ys'"
    and b: "set ys' = set ys \<union> (if fst e = n then {snd e} else {})"
    using add_member_step[of m n ys e] Cons.prems by blast
  from Cons.IH[of "add_member e m" ys'] a obtain zs where "fold add_member es (add_member e m) n = Some zs"
    "set zs = set ys' \<union> {ip. (n, ip) \<in> set es}" by blast
  then show ?case using b by (cases e) (auto split: if_splits)
qed

lemma ipsets_effect_redis:
  "ipsets (effect (RedisSmembers k) w) = ipsets w"
  "ipsets (effect (RedisSrem k xs) w) = ipsets w"
  "ipsets (effect (RedisSadd k xs) w) = ipsets w"
  by simp_all

lemma ipsets_reconcile: "ipsets (snd (reconcile_registry ok key ips w)) = ipsets w"
  by (simp add: reconcile_registry_def Let_def exec_def)

lemma redis_flush_and_populate: "redis (flush_and_populate d ok u ips w) = redis w"
  by (simp add: flush_and_populate_def Let_def exec_catch_simps split: option.splits)

lemma redis_reconcile:
  assumes "\<And>c. ok c"
  shows "set (redis (snd (reconcile_registry ok key ips w)) key)
           = {x \<in> set (redis w key). x \<in> set ips}
             \<union> strip_host_suffix ` {x \<in> set ips. x \<notin> set (redis w key)}"
proof -
  let ?R = "redis w key"
  let ?removed = "filter (\<lambda>ip. ip \<notin> set ips) ?R"
  let ?new = "map strip_host_suffix (filter (\<lambda>ip. ip \<notin> set ?R) ips)"
  let ?R1 = "if ?removed \<noteq> [] then filter (\<lambda>x. x \<notin> set ?removed) ?R else ?R"
  have r: "redis (snd (reconcile_registry ok key ips w)) key
             = (if ?new \<noteq> [] then List.union ?R1 ?new else ?R1)"
    using assms by (simp add: reconcile_registry_def Let_def exec_def)
  have r1: "set ?R1 = {x \<in> set ?R. x \<in> set ips}"
    by (auto simp: filter_empty_conv)
  have n: "set ?new = strip_host_suffix ` {x \<in> set ips. x \<notin> set ?R}"
    by auto
  have "set (if ?new \<noteq> [] then List.union ?R1 ?new else ?R1) = set ?R1 \<union> set ?new"
    by (cases "?new = []") simp_all
  then show ?thesis unfolding r r1 n .
qed

lemma registry_converges:
  assumes "\<And>c. ok c" and "list_all (\<lambda>x. strip_host_suffix x = x) (redis w key)"
  shows "set (redis (snd (reconcile_registry ok key ips w)) key) = strip_host_suffix ` set ips"
proof -
  have fixed: "\<And>x. x \<in> set (redis w key) \<Longrightarrow> strip_host_suffix x = x"
    using assms(2) by (simp add: list_all_iff)
  show ?thesis
    unfolding redis_reconcile[OF assms(1)]
  proof (intro equalityI subsetI)
    fix x
    assume "x \<in> {x \<in> set (redis w key). x \<in> set ips}
              \<union> strip_host_suffix ` {x \<in> set ips. x \<notin> set (redis w key)}"
    then show "x \<in> strip_host_suffix ` set ips"
      using fixed by force
  next
    fix x
    assume "x \<in> strip_host_suffix ` set ips"
    then obtain y where y: "y \<in> set ips" "x = strip_host_suffix y" by blast
    show "x \<in> {x \<in> set (redis w key). x \<in> set ips}
              \<union> strip_host_suffix ` {x \<in> set ips. x \<notin> set (redis w key)}"
    proof (cases "y \<in> set (redis w key)")
      case True
      then have "x = y" using fixed y by simp
      then show ?thesis using True y by simp
    next
      case False
      then show ?thesis using y by blast
    qed
  qed
qed

lemma registry_stays_stripped:
  assumes "\<And>c. ok c" and "list_all (\<lambda>x. strip_host_suffix x = x) (redis w key)"
  shows "list_all (\<lambda>x. strip_host_suffix x = x) (redis (snd (reconcile_registry ok key ips w)) key)"
  unfolding list_all_iff registry_converges[OF assms]
  by (auto simp: strip_idem)

lemma family_sets_populated:
  assumes ok: "\<And>c. ok c"
    and e4: "ipsets w (getEnforcementIPsetName (namespace d) u 4) \<noteq> None"
    and e6: "ipsets w (getEnforcementIPsetName (namespace d) u 6) \<noteq> None"
  shows "family_set d u 4 (flush_and_populate d ok u ips w) = valid_v4 d ips
       \<and> family_set d u 6 (flush_and_populate d ok u ips w) = valid_v6 d ips
       \<and> ipsets (flush_and_populate d ok u ips w) (getEnforcementIPsetName (namespace d) u 4) \<noteq> None
       \<and> ipsets (flush_and_populate d ok u ips w) (getEnforcementIPsetName (namespace d) u 6) \<noteq> None"
proof -
  let ?n4 = "getEnforcementIPsetName (namespace d) u 4"
  let ?n6 = "getEnforcementIPsetName (namespace d) u 6"
  let ?m = "(ipsets w)(?n4 \<mapsto> [], ?n6 \<mapsto> [])"
  have ne: "?n4 \<noteq> ?n6" by (rule names_differ)
  have w3: "ipsets (flush_and_populate d ok u ips w) = fold add_member (populate_cmds d u ips) ?m"
    using ok e4 e6 ne by (auto simp: flush_and_populate_def Let_def exec_catch_simps)
  have m4: "?m ?n4 = Some []" using ne by simp
  have m6: "?m ?n6 = Some []" by simp
  from fold_add_member[of ?m ?n4 "[]" "populate_cmds d u ips"] m4
  obtain zs4 where z4: "fold add_member (populate_cmds d u ips) ?m ?n4 = Some zs4"
    "set zs4 = {ip. (?n4, ip) \<in> set (populate_cmds d u ips)}" by auto
  from fold_add_member[of ?m ?n6 "[]" "populate_cmds d u ips"] m6
  obtain zs6 where z6: "fold add_member (populate_cmds d u ips) ?m ?n6 = Some zs6"
    "set zs6 = {ip. (?n6, ip) \<in> set (populate_cmds d u ips)}" by auto
  show ?thesis
    unfolding family_set_def w3
    by (simp add: z4 z6 populate_cmds_4 populate_cmds_6)
qed

lemma not_changed_frame:
  "ipsets (snd (ips_not_changed b idn w)) = ipsets w"
  "redis (snd (ips_not_changed b idn w)) = redis w"
  "trace (snd (ips_not_changed b idn w)) = trace w"
  "set (heap (snd (ips_not_changed b idn w)) x) = set (heap w x)"
  by (cases "priv_ips idn"; simp add: ips_not_changed_None ips_not_changed_Some)+

lemma not_changed_same:
  assumes "fst (ips_not_changed b idn w)"
  shows "\<exists>p. priv_ips idn = Some p \<and> set (heap w p) = set (heap w b)"
proof (cases "priv_ips idn")
  case None
  then show ?thesis using assms by (simp add: ips_not_changed_None)
next
  case (Some p)
  then have "sort (heap w b) = sort (heap w p)"
    using assms by (simp add: ips_not_changed_Some)
  then have "set (sort (heap w b)) = set (sort (heap w p))" by simp
  then show ?thesis using Some by simp
qed

lemma applied_set_cong:
  "set xs = set ys \<Longrightarrow> applied d u xs w = applied d u ys w"
  by (simp add: applied_def valid_v4_def valid_v6_def)

lemma applied_world_cong:
  "ipsets w = ipsets w' \<Longrightarrow> redis w = redis w' \<Longrightarrow> applied d u xs w = applied d u xs w'"
  by (simp add: applied_def family_set_def registry_def)

lemma updateIPs_go_result:
  assumes ok: "\<And>c. ok c"
    and e4: "ipsets w (getEnforcementIPsetName (namespace d) (uniqueId idn) 4) \<noteq> None"
    and e6: "ipsets w (getEnforcementIPsetName (namespace d) (uniqueId idn) 6) \<noteq> None"
    and fixed: "list_all (\<lambda>x. strip_host_suffix x = x) (redis w (getRedisSetName (namespace d) (uniqueId idn)))"
    and go: "\<not> fst (ips_not_changed b idn w)"
  shows "fst (updateIPs d ok b (idn, w)) = Returned
       \<and> fst (snd (updateIPs d ok b (idn, w))) = idn\<lparr>priv_ips := Some b\<rparr>
       \<and> applied d (uniqueId idn) (heap w b) (snd (snd (updateIPs d ok b (idn, w))))
       \<and> ipsets (snd (snd (updateIPs d ok b (idn, w)))) (getEnforcementIPsetName (namespace d) (uniqueId idn) 4) \<noteq> None
       \<and> ipsets (snd (snd (updateIPs d ok b (idn, w)))) (getEnforcementIPsetName (namespace d) (uniqueId idn) 6) \<noteq> None
       \<and> list_all (\<lambda>x. strip_host_suffix x = x)
            (redis (snd (snd (updateIPs d ok b (idn, w)))) (getRedisSetName (namespace d) (uniqueId idn)))
       \<and> issued w (snd (snd (updateIPs d ok b (idn, w)))) \<noteq> []"
proof -
  let ?u = "uniqueId idn"
  let ?key = "getRedisSetName (namespace d) ?u"
  let ?w0 = "snd (ips_not_changed b idn w)"
  let ?ips = "heap ?w0 b"
  let ?w1 = "flush_and_populate d ok ?u ?ips ?w0"
  let ?rw = "reconcile_registry ok ?key ?ips ?w1"
  have up: "updateIPs d ok b (idn, w) =
      (fst ?rw, if fst ?rw = Returned then idn\<lparr>priv_ips := Some b\<rparr> else idn, snd ?rw)"
    using updateIPs_go[OF go, of d ok] by (simp add: Let_def)
  have ret: "fst ?rw = Returned" by (rule reconcile_ok) (rule ok)+
  have s: "set ?ips = set (heap w b)" by (rule not_changed_frame)
  have fam: "family_set d ?u 4 ?w1 = valid_v4 d ?ips" "family_set d ?u 6 ?w1 = valid_v6 d ?ips"
    "ipsets ?w1 (getEnforcementIPsetName (namespace d) ?u 4) \<noteq> None"
    "ipsets ?w1 (getEnforcementIPsetName (namespace d) ?u 6) \<noteq> None"
    using family_sets_populated[of ok ?w0 d ?u ?ips] ok e4 e6
    by (simp_all add: not_changed_frame)
  have fixed1: "list_all (\<lambda>x. strip_host_suffix x = x) (redis ?w1 ?key)"
    using fixed by (simp add: redis_flush_and_populate not_changed_frame)
  have reg: "set (redis (snd ?rw) ?key) = strip_host_suffix ` set ?ips"
    by (rule registry_converges[OF ok fixed1])
  have fixed2: "list_all (\<lambda>x. strip_host_suffix x = x) (redis (snd ?rw) ?key)"
    by (rule registry_stays_stripped[OF ok fixed1])
  have app: "applied d ?u ?ips (snd ?rw)"
    using fam reg by (simp add: applied_def family_set_def registry_def ipsets_reconcile)
  obtain xs where xs: "trace (snd ?rw) = trace ?w1 @ xs" using trace_reconcile by blast
  have tr: "issued w (snd ?rw) \<noteq> []"
    by (simp add: issued_def xs trace_flush_and_populate not_changed_frame)
  show ?thesis
    unfolding up using ret app fam(3,4) fixed2 tr applied_set_cong[OF s]
    by (simp add: ipsets_reconcile)
qed

lemma updateIPs_step:
  assumes ok: "\<And>c. ok c" and conv: "converged d (idn, w)"
  shows "fst (updateIPs d ok b (idn, w)) = Returned
       \<and> converged d (snd (updateIPs d ok b (idn, w)))
       \<and> applied d (uniqueId idn) (heap w b) (snd (snd (updateIPs d ok b (idn, w))))
       \<and> uniqueId (fst (snd (updateIPs d ok b (idn, w)))) = uniqueId idn
       \<and> (\<forall>x. set (heap (snd (snd (updateIPs d ok b (idn, w)))) x) = set (heap w x))
       \<and> (\<exists>p. priv_ips (fst (snd (updateIPs d ok b (idn, w)))) = Some p
               \<and> set (heap w p) = set (heap w b))
       \<and> (issued w (snd (snd (updateIPs d ok b (idn, w)))) = []
            \<longrightarrow> fst (ips_not_changed b idn w))"
proof (cases "fst (ips_not_changed b idn w)")
  case True
  let ?w0 = "snd (ips_not_changed b idn w)"
  have up: "updateIPs d ok b (idn, w) = (Returned, idn, ?w0)"
    by (rule updateIPs_skip[OF True])
  from not_changed_same[OF True] obtain p where p: "priv_ips idn = Some p"
    "set (heap w p) = set (heap w b)" by blast
  have app: "applied d (uniqueId idn) (heap w p) w"
    using conv p by (simp add: converged_def)
  have app0: "applied d (uniqueId idn) (heap w b) ?w0"
    using app applied_set_cong[OF p(2), of d "uniqueId idn" w]
      applied_world_cong[of ?w0 w d "uniqueId idn" "heap w b"]
    by (simp add: not_changed_frame)
  have app1: "applied d (uniqueId idn) (heap ?w0 p) ?w0"
    using app0 applied_set_cong[of "heap ?w0 p" "heap w b" d "uniqueId idn" ?w0] p(2)
    by (simp add: not_changed_frame)
  have conv0: "converged d (idn, ?w0)"
    using conv app1 p by (simp add: converged_def not_changed_frame)
  show ?thesis
    unfolding up using conv0 app0 p True
    by (simp add: not_changed_frame issued_def)
next
  case False
  let ?r = "updateIPs d ok b (idn, w)"
  have e: "ipsets w (getEnforcementIPsetName (namespace d) (uniqueId idn) 4) \<noteq> None"
    "ipsets w (getEnforcementIPsetName (namespace d) (uniqueId idn) 6) \<noteq> None"
    "list_all (\<lambda>x. strip_host_suffix x = x) (redis w (getRedisSetName (namespace d) (uniqueId idn)))"
    using conv by (simp_all add: converged_def)
  note res = updateIPs_go_result[of ok w d idn b, OF ok e False]
  have hp: "\<And>x. set (heap (snd (snd ?r)) x) = set (heap w x)"
    by (simp add: heap_updateIPs not_changed_frame)
  have app: "applied d (uniqueId idn) (heap (snd (snd ?r)) b) (snd (snd ?r))"
    using res applied_set_cong[OF hp[of b], of d "uniqueId idn" "snd (snd ?r)"] by simp
  have conv': "converged d (snd ?r)"
    using res app by (simp add: converged_def)
  show ?thesis
    using res conv' hp by simp
qed

lemma converged_heap:
  assumes "converged d (idn, w)"
    and "\<forall>p. priv_ips idn = Some p \<longrightarrow> set (h p) = set (heap w p)"
  shows "converged d (idn, w\<lparr>heap := h\<rparr>)"
proof (cases "priv_ips idn")
  case None
  then show ?thesis using assms(1) by (simp add: converged_def)
next
  case (Some p)
  then have "set (h p) = set (heap w p)" using assms(2) by simp
  from applied_set_cong[OF this, of d "uniqueId idn" w]
  have "applied d (uniqueId idn) (h p) (w\<lparr>heap := h\<rparr>) = applied d (uniqueId idn) (heap w p) w"
    using applied_world_cong[of "w\<lparr>heap := h\<rparr>" w d "uniqueId idn" "h p"] by simp
  then show ?thesis using assms(1) Some by (simp add: converged_def)
qed

text \<open>
  Claim C3, as amended. Take a state in which the family sets exist, the registry holds
  stripped entries and the recorded list (if any) is the one applied, and two
  successive calls of \<open>updateIPs\<close> whose operations all succeed, the first with the
  array \<open>a\<close>. Between the calls the caller may change its arrays (\<open>h\<close> is the heap at
  the second call), except that the array the identity has recorded after the first
  call still holds the same addresses. Then after the second call, made with the
  array \<open>b\<close>, the registry equals the set of the addresses of \<open>b\<close> with the host
  suffixes stripped, and the two family sets equal the valid addresses of \<open>b\<close> by
  family; the lists enter as sets only, so in any order. The second call issues no
  operation only when \<open>b\<close> and the first list are equal as sets.
\<close>

theorem updateIPs_converges:
  assumes "\<And>c. ok1 c" and "\<And>c. ok2 c" and "converged d (idn, w)"
    and "\<forall>p. priv_ips (fst (snd (updateIPs d ok1 a (idn, w)))) = Some p \<longrightarrow>
             set (h p) = set (heap (snd (snd (updateIPs d ok1 a (idn, w)))) p)"
  shows "let s1 = snd (updateIPs d ok1 a (idn, w));
             r2 = updateIPs d ok2 b (fst s1, (snd s1)\<lparr>heap := h\<rparr>)
         in fst r2 = Returned
            \<and> registry d (uniqueId idn) (snd (snd r2)) = strip_host_suffix ` set (h b)
            \<and> family_set d (uniqueId idn) 4 (snd (snd r2)) = valid_v4 d (h b)
            \<and> family_set d (uniqueId idn) 6 (snd (snd r2)) = valid_v6 d (h b)
            \<and> (issued (snd s1) (snd (snd r2)) = [] \<longrightarrow> set (h b) = set (heap w a))"
proof -
  let ?r1 = "updateIPs d ok1 a (idn, w)"
  obtain idn1 w1 where s1: "snd ?r1 = (idn1, w1)" by (cases "snd ?r1") simp
  let ?w1 = "w1\<lparr>heap := h\<rparr>"
  let ?r2 = "updateIPs d ok2 b (idn1, ?w1)"
  note st1 = updateIPs_step[of ok1 d idn w a, OF assms(1) assms(3)]
  have conv1: "converged d (idn1, w1)" and u1: "uniqueId idn1 = uniqueId idn"
    and h1: "\<And>x. set (heap w1 x) = set (heap w x)"
    using st1 by (simp_all add: s1)
  obtain p where p: "priv_ips idn1 = Some p" "set (heap w p) = set (heap w a)"
    using st1 by (auto simp: s1)
  have keep: "\<forall>p. priv_ips idn1 = Some p \<longrightarrow> set (h p) = set (heap w1 p)"
    using assms(4) by (simp add: s1)
  have conv1': "converged d (idn1, ?w1)"
    by (rule converged_heap[OF conv1 keep])
  note st2 = updateIPs_step[of ok2 d idn1 ?w1 b, OF assms(2) conv1']
  have app: "applied d (uniqueId idn) (h b) (snd (snd ?r2))"
    using st2 by (simp add: u1)
  have skip: "set (h b) = set (heap w a)" if "issued w1 (snd (snd ?r2)) = []"
  proof -
    from that have "issued ?w1 (snd (snd ?r2)) = []" by (simp add: issued_def)
    with st2 have "fst (ips_not_changed b idn1 ?w1)" by blast
    from not_changed_same[OF this] p(1) have "set (h p) = set (h b)" by simp
    then show ?thesis using h1 p(2) keep p(1) by simp
  qed
  show ?thesis
    using st2 app skip by (simp add: s1 Let_def applied_def)
qed

lemma world2_converged: "converged deps0 (identity0, world2)"
  by (simp add: converged_def identity0_def names0)
     (simp add: world2_def world1_def world0_def deps0_def getRedisSetName_def)

lemma heap_world2:
  "heap world2 5 = [''10.0.0.2'', ''10.0.0.1'']" "heap world2 7 = [''fd00::2'', ''10.0.0.9/32'']"
  by (simp_all add: world2_def world1_def world0_def)

lemma after_first_facts:
  "fst after_first = identity0\<lparr>priv_ips := Some 5\<rparr>"
  "heap (snd after_first) = heap world2"
  "registry deps0 ''peer1'' (snd after_first) = {''10.0.0.1'', ''10.0.0.2''}"
  "family_set deps0 ''peer1'' 4 (snd after_first) = {''10.0.0.1'', ''10.0.0.2''}"
  "family_set deps0 ''peer1'' 6 (snd after_first) = {}"
proof -
  have n: "\<not> fst (ips_not_changed 5 identity0 world2)"
    by (simp add: ips_not_changed_None identity0_def)
  have c: "ipsets world2 (getEnforcementIPsetName (namespace deps0) (uniqueId identity0) 4) \<noteq> None"
    "ipsets world2 (getEnforcementIPsetName (namespace deps0) (uniqueId identity0) 6) \<noteq> None"
    "list_all (\<lambda>x. strip_host_suffix x = x)
       (redis world2 (getRedisSetName (namespace deps0) (uniqueId identity0)))"
    using world2_converged by (simp_all add: converged_def)
  have ok: "\<And>c. all_ok c" by (simp add: all_ok_def)
  note res = updateIPs_go_result[of all_ok world2 deps0 identity0 5, OF ok c n]
  have u: "uniqueId identity0 = ''peer1''" by (simp add: identity0_def)
  have vals: "strip_host_suffix ''10.0.0.2'' = ''10.0.0.2''" "strip_host_suffix ''10.0.0.1'' = ''10.0.0.1''"
    "valid_v4 deps0 [''10.0.0.2'', ''10.0.0.1''] = {''10.0.0.1'', ''10.0.0.2''}"
    "valid_v6 deps0 [''10.0.0.2'', ''10.0.0.1''] = {}"
    by (auto simp: strip_host_suffix_def endsWith_def valid_v4_def valid_v6_def deps0_def)
  show "fst after_first = identity0\<lparr>priv_ips := Some 5\<rparr>"
    using res by (simp add: after_first_def)
  show "heap (snd after_first) = heap world2"
    by (simp add: after_first_def heap_updateIPs ips_not_changed_None identity0_def)
  from res have app: "applied deps0 ''peer1'' [''10.0.0.2'', ''10.0.0.1''] (snd after_first)"
    by (simp add: after_first_def u heap_world2)
  show "registry deps0 ''peer1'' (snd after_first) = {''10.0.0.1'', ''10.0.0.2''}"
    "family_set deps0 ''peer1'' 4 (snd after_first) = {''10.0.0.1'', ''10.0.0.2''}"
    "family_set deps0 ''peer1'' 6 (snd after_first) = {}"
    using app by (auto simp: applied_def vals)
qed

theorem updateIPs_converges_witness:
  "converged deps0 (identity0, world2)
   \<and> priv_ips (fst after_first) = Some 5
   \<and> heap_other 5 = heap (snd after_first) 5
   \<and> heap (snd after_first) 7 = [''fd00::2'', ''10.0.0.9/32'']
   \<and> heap_other 7 = [''fd00::3'', ''10.0.0.9/32'']
   \<and> fst (updateIPs deps0 all_ok 7 (fst after_first, (snd after_first)\<lparr>heap := heap_other\<rparr>)) = Returned
   \<and> registry deps0 ''peer1''
        (snd (snd (updateIPs deps0 all_ok 7 (fst after_first, (snd after_first)\<lparr>heap := heap_other\<rparr>))))
       = {''fd00::3'', ''10.0.0.9''}
   \<and> family_set deps0 ''peer1'' 4
        (snd (snd (updateIPs deps0 all_ok 7 (fst after_first, (snd after_first)\<lparr>heap := heap_other\<rparr>))))
       = {''10.0.0.9/32''}
   \<and> family_set deps0 ''peer1'' 6
        (snd (snd (updateIPs deps0 all_ok 7 (fst after_first, (snd after_first)\<lparr>heap := heap_other\<rparr>))))
       = {''fd00::3''}"
proof -
  have u: "uniqueId identity0 = ''peer1''" by (simp add: identity0_def)
  have h5: "heap_other 5 = heap (snd after_first) 5"
    and h7: "heap_other 7 = [''fd00::3'', ''10.0.0.9/32'']"
    by (simp_all add: heap_other_def)
  have p: "priv_ips (fst after_first) = Some 5" by (simp add: after_first_facts)
  have keep: "\<forall>p. priv_ips (fst (snd (updateIPs deps0 all_ok 5 (identity0, world2)))) = Some p \<longrightarrow>
             set (heap_other p) = set (heap (snd (snd (updateIPs deps0 all_ok 5 (identity0, world2)))) p)"
    using p h5 by (simp add: after_first_def)
  have vals: "strip_host_suffix ''fd00::3'' = ''fd00::3''"
    "strip_host_suffix ''10.0.0.9/32'' = ''10.0.0.9''"
    "valid_v4 deps0 [''fd00::3'', ''10.0.0.9/32''] = {''10.0.0.9/32''}"
    "valid_v6 deps0 [''fd00::3'', ''10.0.0.9/32''] = {''fd00::3''}"
    by (auto simp: strip_host_suffix_def endsWith_def split_slash_0_def valid_v4_def valid_v6_def deps0_def)
  show ?thesis
    using updateIPs_converges [of all_ok all_ok deps0 identity0 world2 5 heap_other 7]
      world2_converged keep
    by (simp add: Let_def vals all_ok_def u h7 h5 p after_first_facts(2) heap_world2
          after_first_def[symmetric])
qed

lemma skip_same_array:
  assumes "priv_ips idn = Some b"
  shows "updateIPs d ok b (idn, w) = (Returned, idn, w\<lparr>heap := (heap w)(b := sort (heap w b))\<rparr>)"
proof -
  have e: "ips_not_changed b idn w = (True, w\<lparr>heap := (heap w)(b := sort (heap w b))\<rparr>)"
    by (simp add: ips_not_changed_Some[OF assms])
  then have "fst (ips_not_changed b idn w)" by simp
  from updateIPs_skip[OF this] show ?thesis by (simp add: e)
qed

lemma after_failed_facts:
  "fst (updateIPs deps0 ipset_down 5 (identity0, world2)) = Returned"
  "fst after_failed = identity0\<lparr>priv_ips := Some 5\<rparr>"
  "heap (snd after_failed) = heap world2"
  "ipsets (snd after_failed) = ipsets world2"
proof -
  have n: "\<not> fst (ips_not_changed 5 identity0 world2)"
    by (simp add: ips_not_changed_None identity0_def)
  have inc: "snd (ips_not_changed 5 identity0 world2) = world2"
    by (simp add: ips_not_changed_None identity0_def)
  have r: "fst (reconcile_registry ipset_down key ips w) = Returned" for key ips w
    by (rule reconcile_ok) simp_all
  show "fst (updateIPs deps0 ipset_down 5 (identity0, world2)) = Returned"
    by (simp add: updateIPs_go[OF n] Let_def r)
  show "fst after_failed = identity0\<lparr>priv_ips := Some 5\<rparr>"
    by (simp add: after_failed_def updateIPs_go[OF n] Let_def r)
  show "heap (snd after_failed) = heap world2"
    by (simp add: after_failed_def heap_updateIPs ips_not_changed_None identity0_def)
  show "ipsets (snd after_failed) = ipsets world2"
    by (simp add: after_failed_def updateIPs_go[OF n] Let_def ipsets_reconcile
          flush_and_populate_def exec_catch_simps inc)
qed

text \<open>
  Without these conditions the second list need not be applied. \<open>updateIPs\<close> records
  the caller's array itself, so a caller that stores a new list in the array it passed
  before and passes it again has the list compared with itself: the call issues no
  operation, and the registry and the family sets keep the first list. And after a
  first call whose set commands failed, a second call with the same list is skipped
  although the family sets do not hold it.
\<close>

theorem updateIPs_reused_array_counterexample:
  "priv_ips (fst after_first) = Some 5
   \<and> heap (snd after_first) 5 = [''10.0.0.2'', ''10.0.0.1'']
   \<and> heap (snd reused) 5 = [''10.0.0.3'']
   \<and> fst (updateIPs deps0 all_ok 5 reused) = Returned
   \<and> issued (snd reused) (snd (snd (updateIPs deps0 all_ok 5 reused))) = []
   \<and> heap (snd (snd (updateIPs deps0 all_ok 5 reused))) 5 = [''10.0.0.3'']
   \<and> registry deps0 ''peer1'' (snd (snd (updateIPs deps0 all_ok 5 reused))) = {''10.0.0.1'', ''10.0.0.2''}
   \<and> family_set deps0 ''peer1'' 4 (snd (snd (updateIPs deps0 all_ok 5 reused))) = {''10.0.0.1'', ''10.0.0.2''}
   \<and> strip_host_suffix ` set [''10.0.0.3''] = {''10.0.0.3''}
   \<and> valid_v4 deps0 [''10.0.0.3''] = {''10.0.0.3''}
   \<and> fst (updateIPs deps0 ipset_down 5 (identity0, world2)) = Returned
   \<and> priv_ips (fst after_failed) = Some 5
   \<and> fst (updateIPs deps0 all_ok 5 after_failed) = Returned
   \<and> issued (snd after_failed) (snd (snd (updateIPs deps0 all_ok 5 after_failed))) = []
   \<and> heap (snd (snd (updateIPs deps0 all_ok 5 after_failed))) 5 = [''10.0.0.1'', ''10.0.0.2'']
   \<and> family_set deps0 ''peer1'' 4 (snd (snd (updateIPs deps0 all_ok 5 after_failed))) = {''10.9.9.9''}
   \<and> valid_v4 deps0 [''10.0.0.1'', ''10.0.0.2''] = {''10.0.0.1'', ''10.0.0.2''}"
proof -
  have p: "priv_ips (fst reused) = Some 5"
    by (simp add: reused_def after_first_facts)
  have r: "updateIPs deps0 all_ok 5 reused
           = (Returned, fst reused, (snd reused)\<lparr>heap := (heap (snd reused))(5 := sort (heap (snd reused) 5))\<rparr>)"
    using skip_same_array[OF p, of deps0 all_ok "snd reused"] by simp
  have h: "heap (snd reused) 5 = [''10.0.0.3'']"
    by (simp add: reused_def)
  have reg: "registry deps0 ''peer1'' ((snd reused)\<lparr>heap := hh\<rparr>) = {''10.0.0.1'', ''10.0.0.2''}"
    "family_set deps0 ''peer1'' 4 ((snd reused)\<lparr>heap := hh\<rparr>) = {''10.0.0.1'', ''10.0.0.2''}" for hh
    using after_first_facts(3,4) by (simp_all add: reused_def registry_def family_set_def)
  have pf: "priv_ips (fst after_failed) = Some 5"
    by (simp add: after_failed_facts)
  have rf: "updateIPs deps0 all_ok 5 after_failed
           = (Returned, fst after_failed,
              (snd after_failed)\<lparr>heap := (heap (snd after_failed))(5 := sort (heap (snd after_failed) 5))\<rparr>)"
    using skip_same_array[OF pf, of deps0 all_ok "snd after_failed"] by simp
  have srt: "sort [''10.0.0.2'', ''10.0.0.1''] = [''10.0.0.1'', ''10.0.0.2'']"
    by code_simp
  have fam: "family_set deps0 ''peer1'' 4 ((snd after_failed)\<lparr>heap := hh\<rparr>) = {''10.9.9.9''}" for hh
    by (simp add: family_set_def after_failed_facts names0) (simp add: world2_def)
  have vals: "strip_host_suffix ''10.0.0.3'' = ''10.0.0.3''"
    "valid_v4 deps0 [''10.0.0.3''] = {''10.0.0.3''}"
    "valid_v4 deps0 [''10.0.0.1'', ''10.0.0.2''] = {''10.0.0.1'', ''10.0.0.2''}"
    by (auto simp: strip_host_suffix_def endsWith_def valid_v4_def deps0_def)
  show ?thesis
    unfolding r rf
    by (simp add: h reg fam vals pf after_first_facts after_failed_facts heap_world2 srt issued_def)
qed

section \<open>The ACL timer\<close>









section \<open>The link-up poller\<close>

declare link_up_poll.simps [simp del]

lemma ready_from_here: "t < 30 \<Longrightarrow> ready_at e t \<Longrightarrow> ready_from e t"
  unfolding ready_from_def by blast

lemma ready_from_shift: "\<not> ready_at e t \<Longrightarrow> ready_from e t = ready_from e (Suc t)"
  unfolding ready_from_def by (metis Suc_leD Suc_leI le_neq_implies_less)

lemma ready_from_end: "\<not> t < 30 \<Longrightarrow> \<not> ready_from e t"
  unfolding ready_from_def by auto

lemma poll_step_ready:
  "t < 30 \<Longrightarrow> ready_at e t \<Longrightarrow>
   link_up_poll e intf t st =
     (if truthy (getRemoteIP e) \<and> \<not> route_ok e then Threw else Returned,
      st\<lparr>checks := Suc (checks st), route_calls := route_calls st @ route_of e intf\<rparr>)"
  by (subst link_up_poll.simps)
     (auto simp: ready_at_def Let_def route_of_def truthy_def simp del: map_option_eq_Some
        split: option.splits)

lemma poll_step_not_ready:
  "t < 30 \<Longrightarrow> \<not> ready_at e t \<Longrightarrow>
   link_up_poll e intf t st =
     link_up_poll e intf (Suc t) (st\<lparr>checks := Suc (checks st), delays := Suc (delays st)\<rparr>)"
  by (subst link_up_poll.simps) (simp add: ready_at_def Let_def del: map_option_eq_Some)

lemma poll_done: "\<not> t < 30 \<Longrightarrow> link_up_poll e intf t st = (Returned, st)"
  by (subst link_up_poll.simps) simp

lemma poll_char:
  "fst (link_up_poll e intf t st)
     = (if ready_from e t \<and> truthy (getRemoteIP e) \<and> \<not> route_ok e then Threw else Returned)
   \<and> route_calls (snd (link_up_poll e intf t st))
     = route_calls st @ (if ready_from e t then route_of e intf else [])
   \<and> checks (snd (link_up_poll e intf t st)) \<le> checks st + (30 - t)
   \<and> (\<not> ready_from e t \<longrightarrow>
        snd (link_up_poll e intf t st)
          = st\<lparr>checks := checks st + (30 - t), delays := delays st + (30 - t)\<rparr>)"
proof (induction e intf t st rule: link_up_poll.induct)
  case (1 e intf t st)
  show ?case
  proof (cases "t < 30")
    case False
    then show ?thesis by (simp add: poll_done ready_from_end)
  next
    case lt: True
    show ?thesis
    proof (cases "ready_at e t")
      case True
      show ?thesis
        unfolding poll_step_ready[OF lt True]
        using lt by (simp add: ready_from_here[OF lt True])
    next
      case False
      note ih = "1.IH"[OF lt refl refl False[unfolded ready_at_def]]
      have a: "Suc (checks st) + (30 - Suc t) = checks st + (30 - t)"
        "Suc (delays st) + (30 - Suc t) = delays st + (30 - t)"
        using lt by arith+
      show ?thesis
        unfolding poll_step_not_ready[OF lt False] ready_from_shift[OF False]
        using ih a by auto
    qed
  qed
qed

lemma route_of_nonempty: "route_of e intf \<noteq> [] \<longleftrightarrow> truthy (getRemoteIP e)"
  by (simp add: route_of_def truthy_def split: option.splits)

text \<open>
  Claim C5, as amended. The poller of \<open>start\<close> reads the carrier file at most 30
  times; when readiness never appears within the 30 attempts it returns without error
  after 30 reads and 30 sleeps, having injected no route; and \<open>addRouteToTable\<close> for
  the \<open>wan_routable\<close> table is called if and only if readiness was observed within
  the budget and the remote address resolved (the subnet file could be read and is not
  empty), with exactly that one route.
\<close>

theorem link_up_poller_bounded:
  "checks (snd (start_poll e intf)) \<le> 30
   \<and> route_calls (snd (start_poll e intf)) = (if ready_from e 0 then route_of e intf else [])
   \<and> (route_calls (snd (start_poll e intf)) \<noteq> [] \<longleftrightarrow> ready_from e 0 \<and> truthy (getRemoteIP e))
   \<and> (\<not> ready_from e 0 \<longrightarrow>
        start_poll e intf = (Returned, \<lparr>checks = 30, delays = 30, route_calls = []\<rparr>))
   \<and> fst (start_poll e intf)
       = (if ready_from e 0 \<and> truthy (getRemoteIP e) \<and> \<not> route_ok e then Threw else Returned)"
proof -
  let ?st0 = "\<lparr>checks = 0, delays = 0, route_calls = []\<rparr>"
  note c = poll_char[of e intf 0 ?st0]
  have 1: "checks (snd (start_poll e intf)) \<le> 30"
    using c by (simp add: start_poll_def)
  have 2: "route_calls (snd (start_poll e intf)) = (if ready_from e 0 then route_of e intf else [])"
    using c by (simp add: start_poll_def)
  have 3: "fst (start_poll e intf)
       = (if ready_from e 0 \<and> truthy (getRemoteIP e) \<and> \<not> route_ok e then Threw else Returned)"
    using c by (simp add: start_poll_def)
  have 4: "start_poll e intf = (Returned, \<lparr>checks = 30, delays = 30, route_calls = []\<rparr>)"
    if "\<not> ready_from e 0"
    using c that by (simp add: start_poll_def prod_eq_iff)
  show ?thesis
    using 1 2 3 4 by (simp add: route_of_nonempty)
qed

lemma trim_examples:
  "trim [CHR ''1'', CHR 0x0A] = ''1''" "trim ''0'' = ''0''" "trim ''10.1.2.0/24'' = ''10.1.2.0/24''"
  by (simp_all add: trim_def is_space_def)

theorem link_up_poller_bounded_witness:
  "\<not> ready_from env_never 0
   \<and> start_poll env_never ''vpn_x'' = (Returned, \<lparr>checks = 30, delays = 30, route_calls = []\<rparr>)
   \<and> ready_from env_up 0 \<and> truthy (getRemoteIP env_up)
   \<and> route_calls (snd (start_poll env_up ''vpn_x'')) = [(''10.1.2.2'', ''vpn_x'', ''wan_routable'')]
   \<and> fst (start_poll env_up ''vpn_x'') = Returned"
proof -
  have n: "\<not> ready_from env_never 0"
    by (simp add: ready_from_def ready_at_def env_never_def)
  have u: "ready_from env_up 0"
    unfolding ready_from_def
    by (rule exI[of _ 3]) (simp add: ready_at_def env_up_def trim_examples)
  have g: "getRemoteIP env_up = Some ''10.1.2.2''"
    by (simp add: getRemoteIP_def env_up_def trim_examples)
  show ?thesis
    using link_up_poller_bounded [of env_never "''vpn_x''"] link_up_poller_bounded [of env_up "''vpn_x''"]
      n u g
    by (simp add: route_of_def truthy_def env_up_def)
qed

text \<open>The link is up at the first attempt, but the subnet file cannot be read: readiness
  is observed and no route is injected.\<close>

theorem link_up_no_route_counterexample:
  "ready_at env_no_subnet 0
   \<and> start_poll env_no_subnet ''vpn_x'' = (Returned, \<lparr>checks = 1, delays = 0, route_calls = []\<rparr>)"
proof -
  have r: "ready_at env_no_subnet 0"
    by (simp add: ready_at_def env_no_subnet_def trim_examples)
  have g: "getRemoteIP env_no_subnet = None"
    by (simp add: getRemoteIP_def env_no_subnet_def)
  show ?thesis
    using r by (simp add: start_poll_def poll_step_ready route_of_def g truthy_def)
qed

section \<open>The subnet allocator\<close>

lemma allocator_result:
  "generateRamdomNetwork_loop locals i draws = Some s \<Longrightarrow>
     snd s = 24 \<and> \<not> inMySubnets4 locals (fst s)"
  by (induction locals i draws rule: generateRamdomNetwork_loop.induct)
     (auto simp: Let_def split: if_splits)

lemma in_cidr_wider:
  assumes "in_cidr a (b, 24)" and "l \<le> 24" and "in_cidr a (cb, l)"
  shows "in_cidr b (cb, l)"
proof -
  have "32 - l = 8 + (24 - l)" using assms(2) by arith
  then have p: "(2::nat) ^ (32 - l) = 2 ^ 8 * 2 ^ (24 - l)"
    by (simp only: power_add)
  have "a div 2 ^ (32 - l) = (a div 2 ^ 8) div 2 ^ (24 - l)"
    unfolding p by (rule div_mult2_eq)
  moreover have "b div 2 ^ (32 - l) = (b div 2 ^ 8) div 2 ^ (24 - l)"
    unfolding p by (rule div_mult2_eq)
  moreover have "a div 2 ^ 8 = b div 2 ^ 8"
    using assms(1) by (simp add: in_cidr_def)
  ultimately show ?thesis
    using assms(3) by (simp add: in_cidr_def)
qed

text \<open>What the allocator's test does guarantee: against local subnets no longer than
  /24 the returned subnet is disjoint from each of them.\<close>

lemma allocator_disjoint_short_prefixes:
  assumes "list_all (\<lambda>c. snd c \<le> 24) locals" and "generateRamdomNetwork locals draws = Some s"
  shows "list_all (\<lambda>c. \<not> cidr_intersect s c) locals"
proof -
  from allocator_result[of locals 0 draws s] assms(2)
  have s: "snd s = 24" "\<not> inMySubnets4 locals (fst s)"
    by (simp_all add: generateRamdomNetwork_def)
  have "\<not> cidr_intersect s c" if c: "c \<in> set locals" for c
  proof
    assume "cidr_intersect s c"
    then obtain a where a: "in_cidr a (fst s, 24)" "in_cidr a (fst c, snd c)"
      using s(1) by (cases s) (auto simp: cidr_intersect_def)
    have "snd c \<le> 24" using assms(1) c by (simp add: list_all_iff)
    from in_cidr_wider[OF a(1) this a(2)] have "in_cidr (fst s) c" by simp
    then show False using s(2) c by (auto simp: inMySubnets4_def)
  qed
  then show ?thesis by (simp add: list_all_iff)
qed

text \<open>
  Claim C4. The allocator is to return no /24 that intersects a locally attached
  subnet. With the local subnet 10.0.0.128/25 and a first draw of 0 it returns
  10.0.0.0/24: the candidate's base address 10.0.0.0 is outside the local subnet, so
  the test accepts it, and the two subnets share the address 10.0.0.128.
\<close>

theorem allocator_returns_overlapping_subnet:
  "generateRamdomNetwork [(ipv4 10 0 0 128, 25)] [0] = Some (ipv4 10 0 0 0, 24)
   \<and> in_cidr (ipv4 10 0 0 128) (ipv4 10 0 0 0, 24)
   \<and> in_cidr (ipv4 10 0 0 128) (ipv4 10 0 0 128, 25)
   \<and> cidr_intersect (ipv4 10 0 0 0, 24) (ipv4 10 0 0 128, 25)"
proof -
  have 1: "generateRamdomNetwork [(ipv4 10 0 0 128, 25)] [0] = Some (ipv4 10 0 0 0, 24)"
    by (simp add: generateRamdomNetwork_def Let_def ipRangeRandomMap_def inMySubnets4_def
        in_cidr_def ipv4_def)
  have 2: "in_cidr (ipv4 10 0 0 128) (ipv4 10 0 0 0, 24)"
    by (simp add: in_cidr_def ipv4_def)
  have 3: "in_cidr (ipv4 10 0 0 128) (ipv4 10 0 0 128, 25)"
    by (simp add: in_cidr_def)
  from 2 3 have "cidr_intersect (ipv4 10 0 0 0, 24) (ipv4 10 0 0 128, 25)"
    unfolding cidr_intersect_def by blast
  with 1 2 3 show ?thesis by blast
qed

end
